theory Spec2Isabelle
  imports Main "HOL-Library.Sublist" "HOL-Library.AList" "HOL-Library.Multiset" "HOL-Library.Word"
begin

section \<open>The polling file watcher of \<^verbatim>\<open>watcher.go\<close>\<close>

text \<open>
  The development embeds the watcher of \<^verbatim>\<open>watcher.go\<close>: the data it keeps
  (\<^verbatim>\<open>Watcher\<close>, \<^verbatim>\<open>Event\<close>, \<^verbatim>\<open>Op\<close>), the configuration calls
  (\<^verbatim>\<open>Add\<close>, \<^verbatim>\<open>AddRecursive\<close>, \<^verbatim>\<open>Remove\<close>, \<^verbatim>\<open>RemoveRecursive\<close>,
  \<^verbatim>\<open>Ignore\<close>), the two listers, the snapshot comparison \<^verbatim>\<open>pollEvents\<close> and the loop
  of \<^verbatim>\<open>Start\<close>.

  Go maps are association lists with distinct keys; assignment is \<open>AList.update\<close>,
  \<^verbatim>\<open>delete\<close> is \<open>AList.delete\<close>, and a loop that deletes the entries it visits
  is a \<open>filter\<close>. The position of an entry in the list carries no meaning: where the
  order of a \<^verbatim>\<open>range\<close> over a map can show in the result (the events of
  \<^verbatim>\<open>pollEvents\<close>, the errors of \<^verbatim>\<open>retrieveFileList\<close>), the model asks a
  parameter for the order of that one \<^verbatim>\<open>range\<close> statement, so that a theorem about
  every such parameter is a theorem about every iteration order the runtime may pick.
  The mutex \<^verbatim>\<open>mu\<close> is not modelled: each method is one atomic step on the state.
\<close>

subsection \<open>Operations, metadata, events\<close>

datatype Op = Create | Write | Remove | Rename | Chmod | Move

text \<open>
  \<^verbatim>\<open>os.FileInfo\<close> is an interface; the record holds what its methods return (the fields
  of the source's own \<^verbatim>\<open>fileInfo\<close> struct, the opaque \<^verbatim>\<open>sys\<close> apart). \<^verbatim>\<open>Size\<close> is
  an \<^verbatim>\<open>int64\<close>, \<^verbatim>\<open>Mode\<close> an \<^verbatim>\<open>os.FileMode\<close> (\<^verbatim>\<open>uint32\<close>). A \<^verbatim>\<open>time.Time\<close> is
  only ever compared with \<^verbatim>\<open>!=\<close>, so an integer stands for it.
\<close>

record fileInfo =
  Name :: string
  Size :: "64 word"
  Mode :: "32 word"
  ModTime :: int
  IsDir :: bool

record Event =
  Op :: Op
  Path :: string
  FileInfo :: fileInfo

type_synonym snapshot = "(string \<times> fileInfo) list"

subsection \<open>Paths: \<^verbatim>\<open>strings.HasPrefix\<close> and \<^verbatim>\<open>path/filepath\<close> on Unix\<close>

definition HasPrefix :: "string \<Rightarrow> string \<Rightarrow> bool" where
  "HasPrefix s pre = prefix pre s"

text \<open>\<^verbatim>\<open>strings.Split(s, "/")\<close>.\<close>

primrec splitSep :: "string \<Rightarrow> string list" where
  "splitSep [] = [[]]"
| "splitSep (c # cs) =
     (if c = CHR ''/'' then [] # splitSep cs
      else (case splitSep cs of [] \<Rightarrow> [[c]] | x # xs \<Rightarrow> (c # x) # xs))"

text \<open>
  \<^verbatim>\<open>filepath.Clean\<close> as the library documents it: multiple separators become one,
  every \<^verbatim>\<open>.\<close> element goes, an inner \<^verbatim>\<open>..\<close> goes with the element before it, a
  \<^verbatim>\<open>..\<close> at the root goes, and the empty result is \<^verbatim>\<open>.\<close>. The elements are kept on
  a stack, last element first.
\<close>

definition cleanStep :: "bool \<Rightarrow> string list \<Rightarrow> string \<Rightarrow> string list" where
  "cleanStep rooted stack c =
     (if c = [] \<or> c = ''.'' then stack
      else if c = ''..'' then
        (case stack of
           [] \<Rightarrow> (if rooted then [] else [c])
         | e # below \<Rightarrow> (if e = ''..'' then c # stack else below))
      else c # stack)"

fun joinSep :: "string list \<Rightarrow> string" where
  "joinSep [] = []"
| "joinSep [x] = x"
| "joinSep (x # y # ys) = x @ CHR ''/'' # joinSep (y # ys)"

definition Clean :: "string \<Rightarrow> string" where
  "Clean path =
     (let rooted = (path \<noteq> [] \<and> hd path = CHR ''/'');
          body = joinSep (rev (foldl (cleanStep rooted) [] (splitSep path)))
      in if rooted then CHR ''/'' # body
         else if body = [] then ''.'' else body)"

text \<open>\<^verbatim>\<open>filepath.Dir\<close>: everything up to the last separator, cleaned.\<close>

definition Dir :: "string \<Rightarrow> string" where
  "Dir path = Clean (rev (dropWhile (\<lambda>c. c \<noteq> CHR ''/'') (rev path)))"

text \<open>\<^verbatim>\<open>filepath.Join\<close> of two elements.\<close>

definition Join :: "string \<Rightarrow> string \<Rightarrow> string" where
  "Join a b =
     (if a \<noteq> [] then Clean (a @ CHR ''/'' # b)
      else if b \<noteq> [] then Clean b
      else [])"

subsection \<open>The snapshot comparison: \<^verbatim>\<open>pollEvents\<close>\<close>

text \<open>
  Modelled from the spec: \<^verbatim>\<open>sameFile\<close> is called by \<^verbatim>\<open>pollEvents\<close> and is not
  defined in \<^verbatim>\<open>watcher.go\<close>. The specification defines "the same file" as matching
  size, matching modification time and matching permission bits.
\<close>

definition sameFile :: "fileInfo \<Rightarrow> fileInfo \<Rightarrow> bool" where
  "sameFile fi1 fi2 \<longleftrightarrow>
     Size fi1 = Size fi2 \<and> ModTime fi1 = ModTime fi2 \<and> Mode fi1 = Mode fi2"

text \<open>
  The \<^verbatim>\<open>range\<close> statements of \<^verbatim>\<open>pollEvents\<close>, in the order of the source; the inner
  loop over \<^verbatim>\<open>creates\<close> starts once for every \<^verbatim>\<open>path1\<close> of the outer loop.
\<close>

datatype range_site =
    Range_w_files
  | Range_files
  | Range_removes
  | Range_creates_inner string
  | Range_creates
  | Range_removes_left

type_synonym range_order = "range_site \<Rightarrow> snapshot \<Rightarrow> snapshot"

text \<open>An iteration order visits every entry of the map once.\<close>

definition range_ok :: "range_order \<Rightarrow> bool" where
  "range_ok rng \<longleftrightarrow> (\<forall>site m. mset (rng site m) = mset m)"

text \<open>Lines 470-474: the paths of \<^verbatim>\<open>w.files\<close> that \<^verbatim>\<open>files\<close> lacks.\<close>

fun collect_removes :: "snapshot \<Rightarrow> snapshot \<Rightarrow> snapshot \<Rightarrow> snapshot" where
  "collect_removes files [] removes = removes"
| "collect_removes files ((path, info) # rest) removes =
     (case map_of files path of
        None \<Rightarrow> collect_removes files rest (AList.update path info removes)
      | Some _ \<Rightarrow> collect_removes files rest removes)"

text \<open>
  Lines 476-498: a path of \<^verbatim>\<open>files\<close> that \<^verbatim>\<open>w.files\<close> lacks goes to \<^verbatim>\<open>creates\<close>; a
  path of both sends \<^verbatim>\<open>Write\<close> when the modification times differ and then \<^verbatim>\<open>Chmod\<close>
  when the modes differ. \<^verbatim>\<open>evt\<close> is the sequence of events sent so far.
\<close>

fun scan_files :: "snapshot \<Rightarrow> snapshot \<Rightarrow> snapshot \<times> Event list \<Rightarrow> snapshot \<times> Event list" where
  "scan_files w_files [] (creates, evt) = (creates, evt)"
| "scan_files w_files ((path, info) # rest) (creates, evt) =
     (case map_of w_files path of
        None \<Rightarrow> scan_files w_files rest (AList.update path info creates, evt)
      | Some oldInfo \<Rightarrow>
          (let evt1 = (if ModTime oldInfo \<noteq> ModTime info
                       then evt @ [\<lparr>Op = Write, Path = path, FileInfo = info\<rparr>] else evt);
               evt2 = (if Mode oldInfo \<noteq> Mode info
                       then evt1 @ [\<lparr>Op = Chmod, Path = path, FileInfo = info\<rparr>] else evt1)
           in scan_files w_files rest (creates, evt2)))"

text \<open>
  Lines 500-520, the inner loop for one \<^verbatim>\<open>path1\<close>: the list is \<^verbatim>\<open>creates\<close> as the
  loop found it (the only entry deleted while it runs is the one being visited). There is
  no \<^verbatim>\<open>break\<close> after a match: the loop goes on with the same \<^verbatim>\<open>info1\<close>.
\<close>

definition rename_event :: "string \<Rightarrow> fileInfo \<Rightarrow> string \<Rightarrow> Event" where
  "rename_event path1 info1 path2 =
     \<lparr>Op = (if Dir path1 = Dir path2 then Rename else Move),
      Path = path1 @ '' -> '' @ path2,
      FileInfo = info1\<rparr>"

fun match_creates ::
  "string \<Rightarrow> fileInfo \<Rightarrow> snapshot \<Rightarrow> snapshot \<times> snapshot \<times> Event list
     \<Rightarrow> snapshot \<times> snapshot \<times> Event list" where
  "match_creates path1 info1 [] (removes, creates, evt) = (removes, creates, evt)"
| "match_creates path1 info1 ((path2, info2) # rest) (removes, creates, evt) =
     (if sameFile info1 info2
      then match_creates path1 info1 rest
             (AList.delete path1 removes, AList.delete path2 creates,
              evt @ [rename_event path1 info1 path2])
      else match_creates path1 info1 rest (removes, creates, evt))"

text \<open>Lines 499-521, the outer loop over \<^verbatim>\<open>removes\<close>.\<close>

fun resolve_renames ::
  "range_order \<Rightarrow> snapshot \<Rightarrow> snapshot \<times> snapshot \<times> Event list
     \<Rightarrow> snapshot \<times> snapshot \<times> Event list" where
  "resolve_renames rng [] st = st"
| "resolve_renames rng ((path1, info1) # rest) (removes, creates, evt) =
     resolve_renames rng rest
       (match_creates path1 info1 (rng (Range_creates_inner path1) creates)
          (removes, creates, evt))"

definition create_events :: "snapshot \<Rightarrow> Event list" where
  "create_events creates = map (\<lambda>(path, info). \<lparr>Op = Create, Path = path, FileInfo = info\<rparr>) creates"

definition remove_events :: "snapshot \<Rightarrow> Event list" where
  "remove_events removes = map (\<lambda>(path, info). \<lparr>Op = Remove, Path = path, FileInfo = info\<rparr>) removes"

text \<open>
  \<^verbatim>\<open>pollEvents\<close>: the events it sends on \<^verbatim>\<open>evt\<close>, in order, when \<^verbatim>\<open>cancel\<close> never
  fires. Every send is a \<^verbatim>\<open>select\<close> against \<^verbatim>\<open>cancel\<close> that returns from the
  function, so a cancelled call sends a prefix of this sequence.
\<close>

definition pollEvents :: "range_order \<Rightarrow> snapshot \<Rightarrow> snapshot \<Rightarrow> Event list" where
  "pollEvents rng w_files files =
     (let removes = collect_removes files (rng Range_w_files w_files) [];
          (creates, evt) = scan_files w_files (rng Range_files files) ([], []);
          (removes', creates', evt') =
             resolve_renames rng (rng Range_removes removes) (removes, creates, evt)
      in evt' @ create_events (rng Range_creates creates')
              @ remove_events (rng Range_removes_left removes'))"

definition pollEvents_cancelled :: "nat \<Rightarrow> range_order \<Rightarrow> snapshot \<Rightarrow> snapshot \<Rightarrow> Event list" where
  "pollEvents_cancelled k rng w_files files = take k (pollEvents rng w_files files)"

subsection \<open>Closed forms used in the proofs\<close>

text \<open>What lines 482-497 send for one entry of \<^verbatim>\<open>files\<close>.\<close>

definition changed_events :: "snapshot \<Rightarrow> string \<times> fileInfo \<Rightarrow> Event list" where
  "changed_events w_files x =
     (case map_of w_files (fst x) of
        None \<Rightarrow> []
      | Some oldInfo \<Rightarrow>
          (if ModTime oldInfo \<noteq> ModTime (snd x) then [\<lparr>Op = Write, Path = fst x, FileInfo = snd x\<rparr>] else [])
          @ (if Mode oldInfo \<noteq> Mode (snd x) then [\<lparr>Op = Chmod, Path = fst x, FileInfo = snd x\<rparr>] else []))"

text \<open>The entries of \<^verbatim>\<open>creates\<close> that one \<^verbatim>\<open>info1\<close> matches.\<close>

definition matched :: "fileInfo \<Rightarrow> snapshot \<Rightarrow> snapshot" where
  "matched info1 creates = filter (\<lambda>x. sameFile info1 (snd x)) creates"

text \<open>The four categories of events, in the order the source sends them.\<close>

fun phase :: "Op \<Rightarrow> nat" where
  "phase Write = 0"
| "phase Chmod = 0"
| "phase Rename = 1"
| "phase Move = 1"
| "phase Create = 2"
| "phase Remove = 3"

subsection \<open>Concrete snapshots\<close>

text \<open>The iteration order that visits the entries of every map as they are listed.\<close>

definition listed_order :: range_order where
  "listed_order site m = m"

definition snap_A :: snapshot where
  "snap_A = [(''/tmp/w'', \<lparr>Name = ''w'', Size = 4096, Mode = 493, ModTime = 7, IsDir = True\<rparr>),
             (''/tmp/w/f1'', \<lparr>Name = ''f1'', Size = 10, Mode = 420, ModTime = 0, IsDir = False\<rparr>)]"

definition file_meta :: "string \<Rightarrow> fileInfo" where
  "file_meta n = \<lparr>Name = n, Size = 10, Mode = 420, ModTime = 0, IsDir = False\<rparr>"

definition snap_old :: snapshot where
  "snap_old = [(''/a/x'', file_meta ''x''),
               (''/a/w'', (file_meta ''w'')\<lparr>Size := 3\<rparr>),
               (''/k'', file_meta ''k'')]"

definition snap_new :: snapshot where
  "snap_new = [(''/b/x'', file_meta ''x''),
               (''/k'', (file_meta ''k'')\<lparr>ModTime := 4, Mode := 384\<rparr>),
               (''/c'', (file_meta ''c'')\<lparr>Size := 4\<rparr>)]"

definition dir_a_x :: snapshot where "dir_a_x = [(''/a/x'', file_meta ''x'')]"
definition dir_a_y :: snapshot where "dir_a_y = [(''/a/y'', file_meta ''y'')]"
definition dir_b_x :: snapshot where "dir_b_x = [(''/b/x'', file_meta ''x'')]"

subsection \<open>Errors and the operating system\<close>

text \<open>
  The three errors of the source, \<^verbatim>\<open>filepath.SkipDir\<close>, an error for which
  \<^verbatim>\<open>os.IsNotExist\<close> holds, and any other error of the operating system.
\<close>

datatype error =
    ErrDurationTooShort
  | ErrWatcherRunning
  | ErrWatchedFileDeleted
  | SkipDir
  | ErrNotExist
  | ErrOS string

definition IsNotExist :: "error \<Rightarrow> bool" where
  "IsNotExist err \<longleftrightarrow> err = ErrNotExist"

text \<open>
  A file tree as the listers see it: the metadata of the entry, the error of reading it
  as a directory (if it cannot be read), and its entries in the order
  \<^verbatim>\<open>ioutil.ReadDir\<close> and \<^verbatim>\<open>filepath.Walk\<close> return them (sorted by name).
\<close>

datatype fsnode = FsNode (node_info: fileInfo) (node_err: "error option") (node_kids: "fsnode list")

text \<open>
  What the source asks of the operating system: \<^verbatim>\<open>filepath.Abs\<close>, and
  \<^verbatim>\<open>os.Stat\<close> / \<^verbatim>\<open>os.Lstat\<close> of a path, which answers with the tree found there.
\<close>

record os_env =
  Abs :: "string \<Rightarrow> error + string"
  Stat :: "string \<Rightarrow> error + fsnode"

subsection \<open>The watcher\<close>

text \<open>
  The fields of \<^verbatim>\<open>Watcher\<close> that hold state. \<^verbatim>\<open>wg\<close> is the counter of the
  \<^verbatim>\<open>sync.WaitGroup\<close>; the channels are the inputs and outputs of \<^verbatim>\<open>Start\<close> below.
\<close>

record Watcher =
  wg :: int
  runnning :: bool
  names :: "(string \<times> bool) list"
  files :: snapshot
  ignored :: "string set"
  ops :: "Op set"
  ignoreHidden :: bool
  maxEvents :: int

definition New :: Watcher where
  "New = \<lparr>wg = 1, runnning = False, names = [], files = [], ignored = {}, ops = {},
          ignoreHidden = False, maxEvents = 0\<rparr>"

definition SetMaxEvents :: "int \<Rightarrow> Watcher \<Rightarrow> Watcher" where
  "SetMaxEvents delta w = w\<lparr>maxEvents := delta\<rparr>"

definition IgnoreHiddenFiles :: "bool \<Rightarrow> Watcher \<Rightarrow> Watcher" where
  "IgnoreHiddenFiles ignore w = w\<lparr>ignoreHidden := ignore\<rparr>"

definition FilterOps :: "Op list \<Rightarrow> Watcher \<Rightarrow> Watcher" where
  "FilterOps os w = w\<lparr>ops := set os\<rparr>"

text \<open>\<^verbatim>\<open>for k, v := range fileList { w.files[k] = v }\<close>.\<close>

definition assign_all :: "snapshot \<Rightarrow> snapshot \<Rightarrow> snapshot" where
  "assign_all fileList m = fold (\<lambda>(k, v). AList.update k v) fileList m"

text \<open>Lines 174-181 of \<^verbatim>\<open>list\<close>: the entries of a directory.\<close>

fun list_entries :: "Watcher \<Rightarrow> string \<Rightarrow> fileInfo list \<Rightarrow> snapshot \<Rightarrow> snapshot" where
  "list_entries w name [] fileList = fileList"
| "list_entries w name (fInfo # rest) fileList =
     (let path = Join name (Name fInfo)
      in if path \<in> ignored w \<or> (ignoreHidden w \<and> HasPrefix (Name fInfo) ''.'')
         then list_entries w name rest fileList
         else list_entries w name rest (AList.update path fInfo fileList))"

definition list :: "os_env \<Rightarrow> Watcher \<Rightarrow> string \<Rightarrow> error + snapshot" where
  "list os w name =
     (case Stat os name of
        Inl err \<Rightarrow> Inl err
      | Inr node \<Rightarrow>
          (let stat = node_info node;
               fileList = AList.update name stat []
           in if \<not> IsDir stat then Inr fileList
              else (case node_err node of
                      Some err \<Rightarrow> Inl err
                    | None \<Rightarrow> Inr (list_entries w name (map node_info (node_kids node)) fileList))))"

text \<open>
  The function that \<^verbatim>\<open>listRecursive\<close> hands to \<^verbatim>\<open>filepath.Walk\<close> (lines 210-224);
  \<^verbatim>\<open>fileList\<close> is the map it closes over.
\<close>

definition walkFn ::
  "Watcher \<Rightarrow> string \<Rightarrow> fileInfo \<Rightarrow> error option \<Rightarrow> snapshot \<Rightarrow> snapshot \<times> error option" where
  "walkFn w path info err fileList =
     (case err of
        Some e \<Rightarrow> (fileList, Some e)
      | None \<Rightarrow>
          if path \<in> ignored w \<or> (ignoreHidden w \<and> HasPrefix (Name info) ''.'')
          then (if IsDir info then (fileList, Some SkipDir) else (fileList, None))
          else (AList.update path info fileList, None))"

text \<open>
  \<^verbatim>\<open>filepath.Walk\<close>'s \<^verbatim>\<open>walk\<close>: a file is handed to the function; a directory is
  read, handed to the function with the error of reading it, and walked entry by entry
  unless either failed. An entry's error stops the walk, except \<^verbatim>\<open>SkipDir\<close> from a
  directory. (The tree gives every entry its metadata, so \<^verbatim>\<open>lstat\<close> of an entry does
  not fail here.)
\<close>

fun walk :: "Watcher \<Rightarrow> string \<Rightarrow> fsnode \<Rightarrow> snapshot \<Rightarrow> snapshot \<times> error option"
and walk_entries :: "Watcher \<Rightarrow> string \<Rightarrow> fsnode list \<Rightarrow> snapshot \<Rightarrow> snapshot \<times> error option" where
  "walk w path (FsNode info derr kids) fileList =
     (if \<not> IsDir info then walkFn w path info None fileList
      else
        (case walkFn w path info derr fileList of
           (fileList1, err1) \<Rightarrow>
             if derr \<noteq> None \<or> err1 \<noteq> None then (fileList1, err1)
             else walk_entries w path kids fileList1))"
| "walk_entries w path [] fileList = (fileList, None)"
| "walk_entries w path (kid # rest) fileList =
     (case walk w (Join path (Name (node_info kid))) kid fileList of
        (fileList1, None) \<Rightarrow> walk_entries w path rest fileList1
      | (fileList1, Some e) \<Rightarrow>
          if \<not> IsDir (node_info kid) \<or> e \<noteq> SkipDir then (fileList1, Some e)
          else walk_entries w path rest fileList1)"

text \<open>
  \<^verbatim>\<open>listRecursive\<close> returns the map together with the error of \<^verbatim>\<open>filepath.Walk\<close>,
  which turns a \<^verbatim>\<open>SkipDir\<close> of the root into success. When \<^verbatim>\<open>Lstat\<close> of the root
  fails, the function is called with that error and returns it.
\<close>

definition listRecursive :: "os_env \<Rightarrow> Watcher \<Rightarrow> string \<Rightarrow> snapshot \<times> error option" where
  "listRecursive os w name =
     (case Stat os name of
        Inl err \<Rightarrow> ([], Some err)
      | Inr node \<Rightarrow>
          (case walk w name node [] of
             (fileList, err) \<Rightarrow> (fileList, if err = Some SkipDir then None else err)))"

text \<open>
  The methods return Go's \<^verbatim>\<open>err\<close> (\<open>None\<close> for \<^verbatim>\<open>nil\<close>) and the watcher as
  they leave it.
\<close>

definition Add :: "os_env \<Rightarrow> string \<Rightarrow> Watcher \<Rightarrow> error option \<times> Watcher" where
  "Add os name0 w =
     (case Abs os name0 of
        Inl err \<Rightarrow> (Some err, w)
      | Inr name \<Rightarrow>
          if name \<in> ignored w \<or> (ignoreHidden w \<and> HasPrefix name ''.'') then (None, w)
          else (case list os w name of
                  Inl err \<Rightarrow> (Some err, w)
                | Inr fileList \<Rightarrow>
                    (None, w\<lparr>files := assign_all fileList (files w),
                             names := AList.update name False (names w)\<rparr>)))"

definition AddRecursive :: "os_env \<Rightarrow> string \<Rightarrow> Watcher \<Rightarrow> error option \<times> Watcher" where
  "AddRecursive os name0 w =
     (case Abs os name0 of
        Inl err \<Rightarrow> (Some err, w)
      | Inr name \<Rightarrow>
          (case listRecursive os w name of
             (fileList, Some err) \<Rightarrow> (Some err, w)
           | (fileList, None) \<Rightarrow>
               (None, w\<lparr>files := assign_all fileList (files w),
                        names := AList.update name True (names w)\<rparr>)))"

text \<open>
  The method \<^verbatim>\<open>Remove\<close>; the plain name is the operation \<^verbatim>\<open>Remove\<close> of
  \<^verbatim>\<open>Op\<close>.
\<close>

definition Remove_path :: "os_env \<Rightarrow> string \<Rightarrow> Watcher \<Rightarrow> error option \<times> Watcher" where
  "Remove_path os name0 w =
     (case Abs os name0 of
        Inl err \<Rightarrow> (Some err, w)
      | Inr name \<Rightarrow>
          (let w1 = w\<lparr>names := AList.delete name (names w)\<rparr>
           in case map_of (files w1) name of
                None \<Rightarrow> (None, w1)
              | Some info \<Rightarrow>
                  if \<not> IsDir info then (None, w1\<lparr>files := AList.delete name (files w1)\<rparr>)
                  else (None, w1\<lparr>files := filter (\<lambda>(path, _). Dir path \<noteq> name)
                                              (AList.delete name (files w1))\<rparr>)))"

definition RemoveRecursive :: "os_env \<Rightarrow> string \<Rightarrow> Watcher \<Rightarrow> error option \<times> Watcher" where
  "RemoveRecursive os name0 w =
     (case Abs os name0 of
        Inl err \<Rightarrow> (Some err, w)
      | Inr name \<Rightarrow>
          (let w1 = w\<lparr>names := AList.delete name (names w)\<rparr>
           in case map_of (files w1) name of
                None \<Rightarrow> (None, w1)
              | Some info \<Rightarrow>
                  if \<not> IsDir info then (None, w1\<lparr>files := AList.delete name (files w1)\<rparr>)
                  else (None, w1\<lparr>files := filter (\<lambda>(path, _). \<not> HasPrefix path name)
                                              (files w1)\<rparr>)))"

fun Ignore :: "os_env \<Rightarrow> string list \<Rightarrow> Watcher \<Rightarrow> error option \<times> Watcher" where
  "Ignore os [] w = (None, w)"
| "Ignore os (path0 # paths) w =
     (case Abs os path0 of
        Inl err \<Rightarrow> (Some err, w)
      | Inr path \<Rightarrow>
          (case RemoveRecursive os path w of
             (Some err, w1) \<Rightarrow> (Some err, w1)
           | (None, w1) \<Rightarrow> Ignore os paths (w1\<lparr>ignored := insert path (ignored w1)\<rparr>)))"

definition WatchedFiles :: "Watcher \<Rightarrow> snapshot" where
  "WatchedFiles w = files w"

definition Close :: "Watcher \<Rightarrow> Watcher" where
  "Close w = (if \<not> runnning w then w else w\<lparr>runnning := False, files := [], names := []\<rparr>)"

subsection \<open>The loop of \<^verbatim>\<open>Start\<close>\<close>

text \<open>
  \<^verbatim>\<open>retrieveFileList\<close> (lines 363-401): one listing per watched name, in the order
  the \<^verbatim>\<open>range\<close> over \<^verbatim>\<open>w.names\<close> takes. The state is the watcher (a name whose
  path is gone is removed from it), the map \<^verbatim>\<open>fileList\<close> and the errors sent on
  \<^verbatim>\<open>w.Error\<close>. A failed \<^verbatim>\<open>list\<close> leaves \<^verbatim>\<open>nil\<close> to merge, a failed
  \<^verbatim>\<open>listRecursive\<close> the entries it had gathered.
\<close>

fun retrieve_names ::
  "os_env \<Rightarrow> (string \<times> bool) list \<Rightarrow> Watcher \<times> snapshot \<times> error list
     \<Rightarrow> Watcher \<times> snapshot \<times> error list" where
  "retrieve_names os [] st = st"
| "retrieve_names os ((name, recursive) # rest) (w, fileList, errs) =
     (if recursive then
        (case listRecursive os w name of
           (lst, None) \<Rightarrow> retrieve_names os rest (w, assign_all lst fileList, errs)
         | (lst, Some err) \<Rightarrow>
             if IsNotExist err
             then retrieve_names os rest
                    (snd (RemoveRecursive os name w), assign_all lst fileList,
                     errs @ [ErrWatchedFileDeleted])
             else retrieve_names os rest (w, assign_all lst fileList, errs @ [err]))
      else
        (case list os w name of
           Inr lst \<Rightarrow> retrieve_names os rest (w, assign_all lst fileList, errs)
         | Inl err \<Rightarrow>
             if IsNotExist err
             then retrieve_names os rest
                    (snd (Remove_path os name w), fileList, errs @ [ErrWatchedFileDeleted])
             else retrieve_names os rest (w, fileList, errs @ [err])))"

type_synonym names_order = "(string \<times> bool) list \<Rightarrow> (string \<times> bool) list"

definition retrieveFileList ::
  "os_env \<Rightarrow> names_order \<Rightarrow> Watcher \<Rightarrow> Watcher \<times> snapshot \<times> error list" where
  "retrieveFileList os order w = retrieve_names os (order (names w)) (w, [], [])"

text \<open>
  The inner loop of \<^verbatim>\<open>Start\<close> (lines 429-454) is a \<^verbatim>\<open>select\<close> over three
  channels; its input is the sequence of cases that fire. \<^verbatim>\<open>numEvents\<close> is the
  counter of the cycle, \<open>sent\<close> the events passed on to \<^verbatim>\<open>w.Event\<close>. The source
  starts no sender on \<^verbatim>\<open>evt\<close> (nothing calls \<^verbatim>\<open>pollEvents\<close>); the loop is modelled
  for every sequence of cases, whoever sends. Every send on \<^verbatim>\<open>w.Event\<close> is taken
  to be received. \<^verbatim>\<open>numEvents\<close> is a Go \<^verbatim>\<open>int\<close>, here an unbounded integer.
\<close>

datatype select_case = Recv_close | Recv_evt Event | Recv_done

datatype inner_exit = Exit_closed | Exit_cancel | Exit_done | Exit_waiting

fun inner :: "Watcher \<Rightarrow> select_case list \<Rightarrow> int \<Rightarrow> Event list \<Rightarrow> inner_exit \<times> int \<times> Event list" where
  "inner w [] numEvents sent = (Exit_waiting, numEvents, sent)"
| "inner w (Recv_close # rest) numEvents sent = (Exit_closed, numEvents, sent)"
| "inner w (Recv_done # rest) numEvents sent = (Exit_done, numEvents, sent)"
| "inner w (Recv_evt event # rest) numEvents sent =
     (if ops w \<noteq> {} \<and> Op event \<notin> ops w then inner w rest numEvents sent
      else if maxEvents w > 0 \<and> numEvents + 1 > maxEvents w
           then (Exit_cancel, numEvents + 1, sent)
           else inner w rest (numEvents + 1) (sent @ [event]))"

text \<open>
  What one cycle of the outer loop meets: the file system of its listing, the order of
  its \<^verbatim>\<open>range\<close> over \<^verbatim>\<open>w.names\<close>, and the cases its \<^verbatim>\<open>select\<close> receives.
\<close>

record cycle =
  cycle_os :: os_env
  cycle_order :: names_order
  cycle_select :: "select_case list"

text \<open>
  How a call of \<^verbatim>\<open>Start\<close> ends: with an error, with \<^verbatim>\<open>nil\<close> after a close, in
  the panic of \<^verbatim>\<open>wg.Done()\<close> on a counter that is zero, or not at all within the cycles
  given (the loop is waiting in its \<^verbatim>\<open>select\<close>, or about to list again).
\<close>

datatype start_exit = Return_err error | Return_nil | Panic | Still_running

text \<open>
  The outer loop (lines 416-460), one cycle per element: the watcher as the cycle leaves
  it, the events passed to \<^verbatim>\<open>w.Event\<close> cycle by cycle, and the errors sent on
  \<^verbatim>\<open>w.Error\<close>.
\<close>

fun poll_loop :: "cycle list \<Rightarrow> Watcher \<Rightarrow> start_exit \<times> Watcher \<times> Event list list \<times> error list" where
  "poll_loop [] w = (Still_running, w, [], [])"
| "poll_loop (c # cs) w =
     (case retrieveFileList (cycle_os c) (cycle_order c) w of
        (w1, fileList, errs) \<Rightarrow>
          (case inner w1 (cycle_select c) 0 [] of
             (Exit_closed, numEvents, sent) \<Rightarrow> (Return_nil, w1, [sent], errs)
           | (Exit_waiting, numEvents, sent) \<Rightarrow> (Still_running, w1, [sent], errs)
           | (_, numEvents, sent) \<Rightarrow>
               (case poll_loop cs (w1\<lparr>files := fileList\<rparr>) of
                  (exit, w2, sents, errs2) \<Rightarrow> (exit, w2, sent # sents, errs @ errs2))))"

text \<open>
  \<^verbatim>\<open>Start\<close>: \<open>d\<close> is the \<^verbatim>\<open>time.Duration\<close> in nanoseconds
  (\<^verbatim>\<open>time.Nanosecond\<close> is 1).
\<close>

definition Start :: "int \<Rightarrow> cycle list \<Rightarrow> Watcher \<Rightarrow> start_exit \<times> Watcher \<times> Event list list \<times> error list" where
  "Start d cycles w =
     (if d < 1 then (Return_err ErrDurationTooShort, w, [], [])
      else if runnning w then (Return_err ErrWatcherRunning, w, [], [])
      else (let w1 = w\<lparr>runnning := True\<rparr>
            in if wg w1 - 1 < 0 then (Panic, w1, [], [])
               else poll_loop cycles (w1\<lparr>wg := wg w1 - 1\<rparr>)))"

text \<open>
  Closed forms for the inner loop: the events that arrive on \<^verbatim>\<open>evt\<close> before the
  loop is left by \<^verbatim>\<open>close\<close> or \<^verbatim>\<open>done\<close>, the test of lines 438-443, and the
  events that reach \<^verbatim>\<open>w.Event\<close> in one cycle.
\<close>

fun arrived :: "select_case list \<Rightarrow> Event list" where
  "arrived [] = []"
| "arrived (Recv_evt event # rest) = event # arrived rest"
| "arrived (Recv_close # rest) = []"
| "arrived (Recv_done # rest) = []"

definition passes :: "Watcher \<Rightarrow> Event \<Rightarrow> bool" where
  "passes w event \<longleftrightarrow> ops w = {} \<or> Op event \<in> ops w"

definition forwarded :: "Watcher \<Rightarrow> select_case list \<Rightarrow> Event list" where
  "forwarded w cases =
     (if 0 < maxEvents w then take (nat (maxEvents w)) (filter (passes w) (arrived cases))
      else filter (passes w) (arrived cases))"

subsection \<open>A concrete operating system\<close>

text \<open>
  \<^verbatim>\<open>filepath.Abs\<close> on Unix: an absolute path is cleaned, a relative one is joined to
  the working directory, and the call fails when the working directory cannot be had.
\<close>

definition unix_Abs :: "error + string \<Rightarrow> string \<Rightarrow> error + string" where
  "unix_Abs wd path =
     (if path \<noteq> [] \<and> hd path = CHR ''/'' then Inr (Clean path)
      else (case wd of Inl err \<Rightarrow> Inl err | Inr d \<Rightarrow> Inr (Join d path)))"

text \<open>The tree found by following the elements of a path from a root directory.\<close>

fun resolve :: "fsnode \<Rightarrow> string list \<Rightarrow> error + fsnode" where
  "resolve node [] = Inr node"
| "resolve node (c # cs) =
     (if \<not> IsDir (node_info node) then Inl (ErrOS ''not a directory'')
      else (case find (\<lambda>kid. Name (node_info kid) = c) (node_kids node) of
              None \<Rightarrow> Inl ErrNotExist
            | Some kid \<Rightarrow> resolve kid cs))"

definition unix_os :: "error + string \<Rightarrow> fsnode \<Rightarrow> os_env" where
  "unix_os wd root =
     \<lparr>Abs = unix_Abs wd,
      Stat = (\<lambda>path. resolve root (filter (\<lambda>c. c \<noteq> []) (splitSep (Clean path))))\<rparr>"

definition dir_meta :: "string \<Rightarrow> fileInfo" where
  "dir_meta n = \<lparr>Name = n, Size = 4096, Mode = 2147484141, ModTime = 0, IsDir = True\<rparr>"

text \<open>
  The tree \<^verbatim>\<open>/a/b\<close>, \<^verbatim>\<open>/a/bc\<close>, \<^verbatim>\<open>/a/d/e\<close>, \<^verbatim>\<open>/a/.h\<close>; \<^verbatim>\<open>d\<close> is a
  directory, the others below \<^verbatim>\<open>/a\<close> are files.
\<close>

definition tree_a :: fsnode where
  "tree_a =
     FsNode (dir_meta ''/'') None
       [FsNode (dir_meta ''a'') None
          [FsNode (file_meta ''.h'') None [],
           FsNode (file_meta ''b'') None [],
           FsNode (file_meta ''bc'') None [],
           FsNode (dir_meta ''d'') None [FsNode (file_meta ''e'') None []]]]"

definition os_a :: os_env where
  "os_a = unix_os (Inl (ErrOS ''getwd'')) tree_a"

text \<open>Watchers and inputs for the concrete runs below.\<close>

definition w_tree :: Watcher where
  "w_tree = New\<lparr>names := [(''/a'', True)],
      files := [(''/a'', dir_meta ''a''), (''/a/b'', file_meta ''b''),
                (''/a/d'', dir_meta ''d''), (''/a/d/e'', file_meta ''e'')]\<rparr>"

definition ev :: "Op \<Rightarrow> string \<Rightarrow> Event" where
  "ev k p = \<lparr>Op = k, Path = p, FileInfo = file_meta p\<rparr>"

definition w_one :: Watcher where
  "w_one = FilterOps [Write] (SetMaxEvents 1 New)"

definition burst :: "select_case list" where
  "burst = [Recv_evt (ev Create ''/a/n''), Recv_evt (ev Write ''/a/b''),
            Recv_evt (ev Write ''/a/bc''), Recv_done]"

definition two_cycles :: "cycle list" where
  "two_cycles = [\<lparr>cycle_os = os_a, cycle_order = (\<lambda>ns. ns), cycle_select = burst\<rparr>,
                 \<lparr>cycle_os = os_a, cycle_order = (\<lambda>ns. ns), cycle_select = [Recv_close]\<rparr>]"

definition w_b :: Watcher where
  "w_b = w_tree\<lparr>names := [(''/a'', True)],
      files := [(''/a'', dir_meta ''a''), (''/a/d'', dir_meta ''d''), (''/a/d/e'', file_meta ''e'')],
      ignored := {''/a/b''}\<rparr>"

definition w_nested :: Watcher where
  "w_nested = New\<lparr>names := [(''/a/d'', True), (''/a/d/e'', False)],
      files := [(''/a/d'', dir_meta ''d''), (''/a/d/e'', file_meta ''e'')]\<rparr>"

definition w_nested_ignored :: Watcher where
  "w_nested_ignored = New\<lparr>names := [(''/a/d/e'', False)], files := [], ignored := {''/a/d''}\<rparr>"

definition one_cycle :: "cycle list" where
  "one_cycle = [\<lparr>cycle_os = os_a, cycle_order = id, cycle_select = [Recv_done]\<rparr>]"

definition w_d :: Watcher where
  "w_d = w_tree\<lparr>files := [(''/a'', dir_meta ''a''), (''/a/b'', file_meta ''b'')],
                ignored := {''/a/d''}\<rparr>"

definition w_plain :: Watcher where
  "w_plain = New\<lparr>names := [(''/a/d'', False)],
      files := [(''/a/d'', dir_meta ''d''), (''/a/d/e'', file_meta ''e'')]\<rparr>"

definition w_all :: Watcher where
  "w_all = New\<lparr>names := [(''/a'', True)],
      files := [(''/a'', dir_meta ''a''), (''/a/.h'', file_meta ''.h''), (''/a/b'', file_meta ''b''),
                (''/a/bc'', file_meta ''bc''), (''/a/d'', dir_meta ''d''),
                (''/a/d/e'', file_meta ''e'')]\<rparr>"

section \<open>Properties of the snapshot comparison\<close>

text \<open>
  In the statements below \<open>w_files\<close> is the old snapshot \<^verbatim>\<open>w.files\<close> and
  \<open>files'\<close> the new one, the parameter \<^verbatim>\<open>files\<close> of \<^verbatim>\<open>pollEvents\<close> (the
  plain name is the field of the watcher).
\<close>

subsection \<open>Iteration orders\<close>

lemma range_ok_set: "range_ok rng \<Longrightarrow> set (rng site m) = set m"
  unfolding range_ok_def by (metis mset_eq_setD)

lemma range_ok_distinct:
  "range_ok rng \<Longrightarrow> distinct (map fst m) \<Longrightarrow> distinct (map fst (rng site m))"
proof -
  assume a: "range_ok rng" and d: "distinct (map fst m)"
  have "mset (rng site m) = mset m" using a by (simp add: range_ok_def)
  then have "mset (map fst (rng site m)) = mset (map fst m)" by simp
  then show ?thesis using d by (rule mset_eq_imp_distinct_iff [THEN iffD2])
qed

lemma range_ok_listed_order: "range_ok listed_order"
  by (simp add: range_ok_def listed_order_def)

lemma range_ok_Nil: "range_ok rng \<Longrightarrow> rng site [] = []"
  using range_ok_set [of rng site "[]"] by simp


lemma collect_removes_all_found:
  "\<forall>x \<in> set xs. map_of files' (fst x) \<noteq> None \<Longrightarrow> collect_removes files' xs acc = acc"
proof (induction xs arbitrary: acc)
  case Nil
  then show ?case by simp
next
  case (Cons x xs)
  obtain p i where x: "x = (p, i)" by (cases x)
  from Cons.prems x obtain v where "map_of files' p = Some v" by auto
  then have "collect_removes files' (x # xs) acc = collect_removes files' xs acc"
    by (simp add: x)
  also have "\<dots> = acc" using Cons.IH Cons.prems by simp
  finally show ?case .
qed

lemma scan_files_unchanged:
  "\<forall>x \<in> set xs. \<exists>old. map_of w_files (fst x) = Some old
       \<and> ModTime old = ModTime (snd x) \<and> Mode old = Mode (snd x)
   \<Longrightarrow> scan_files w_files xs acc = acc"
proof (induction xs arbitrary: acc)
  case Nil
  then show ?case by (cases acc) simp
next
  case (Cons x xs)
  obtain p i where x: "x = (p, i)" by (cases x)
  obtain c e where acc: "acc = (c, e)" by (cases acc)
  from Cons.prems x obtain old where
    o: "map_of w_files p = Some old" "ModTime old = ModTime i" "Mode old = Mode i"
    by auto
  have "scan_files w_files (x # xs) acc = scan_files w_files xs acc"
    using o by (simp add: x acc)
  also have "\<dots> = acc" using Cons.IH Cons.prems by simp
  finally show ?case .
qed

subsection \<open>The loops of \<^verbatim>\<open>pollEvents\<close> in closed form\<close>

lemma update_fresh: "k \<notin> fst ` set al \<Longrightarrow> AList.update k v al = al @ [(k, v)]"
  by (induction al) auto

lemma collect_removes_eq:
  "distinct (map fst xs) \<Longrightarrow> fst ` set acc \<inter> fst ` set xs = {} \<Longrightarrow>
   collect_removes files' xs acc = acc @ filter (\<lambda>x. map_of files' (fst x) = None) xs"
proof (induction xs arbitrary: acc)
  case Nil
  then show ?case by simp
next
  case (Cons x xs)
  obtain p i where x: "x = (p, i)" by (cases x)
  from Cons.prems x have d: "distinct (map fst xs)" and pn: "p \<notin> fst ` set xs"
    and pa: "p \<notin> fst ` set acc" and dj: "fst ` set acc \<inter> fst ` set xs = {}"
    by auto
  show ?case
  proof (cases "map_of files' p")
    case None
    have dj': "fst ` set (acc @ [(p, i)]) \<inter> fst ` set xs = {}" using dj pn by auto
    have "collect_removes files' (x # xs) acc = collect_removes files' xs (acc @ [(p, i)])"
      using None pa by (simp add: x update_fresh)
    also have "\<dots> = (acc @ [(p, i)]) @ filter (\<lambda>x. map_of files' (fst x) = None) xs"
      by (rule Cons.IH [OF d dj'])
    finally show ?thesis using None by (simp add: x)
  next
    case (Some v)
    have "collect_removes files' (x # xs) acc = collect_removes files' xs acc"
      using Some by (simp add: x)
    also have "\<dots> = acc @ filter (\<lambda>x. map_of files' (fst x) = None) xs"
      by (rule Cons.IH [OF d dj])
    finally show ?thesis using Some by (simp add: x)
  qed
qed

lemma scan_files_evt:
  "snd (scan_files w_files xs (creates, evt)) = evt @ concat (map (changed_events w_files) xs)"
proof (induction xs arbitrary: creates evt)
  case Nil
  then show ?case by simp
next
  case (Cons x xs)
  obtain p i where x: "x = (p, i)" by (cases x)
  show ?case
  proof (cases "map_of w_files p")
    case None
    then show ?thesis by (simp add: x Cons.IH changed_events_def)
  next
    case (Some v)
    then show ?thesis by (simp add: x Cons.IH changed_events_def Let_def)
  qed
qed

lemma scan_files_creates:
  "distinct (map fst xs) \<Longrightarrow> fst ` set creates \<inter> fst ` set xs = {} \<Longrightarrow>
   fst (scan_files w_files xs (creates, evt))
     = creates @ filter (\<lambda>x. map_of w_files (fst x) = None) xs"
proof (induction xs arbitrary: creates evt)
  case Nil
  then show ?case by simp
next
  case (Cons x xs)
  obtain p i where x: "x = (p, i)" by (cases x)
  from Cons.prems x have d: "distinct (map fst xs)" and pn: "p \<notin> fst ` set xs"
    and pa: "p \<notin> fst ` set creates" and dj: "fst ` set creates \<inter> fst ` set xs = {}"
    by auto
  show ?case
  proof (cases "map_of w_files p")
    case None
    have dj': "fst ` set (creates @ [(p, i)]) \<inter> fst ` set xs = {}" using dj pn by auto
    have "fst (scan_files w_files (x # xs) (creates, evt))
            = fst (scan_files w_files xs (creates @ [(p, i)], evt))"
      using None pa by (simp add: x update_fresh)
    also have "\<dots> = (creates @ [(p, i)]) @ filter (\<lambda>x. map_of w_files (fst x) = None) xs"
      by (rule Cons.IH [OF d dj'])
    finally show ?thesis using None by (simp add: x)
  next
    case (Some v)
    show ?thesis using Some by (simp add: x Let_def Cons.IH [OF d dj])
  qed
qed

lemma changed_events_Op:
  "e \<in> set (changed_events w_files x) \<Longrightarrow> Op e = Write \<or> Op e = Chmod"
  by (auto simp: changed_events_def split: option.splits if_splits)

lemma delete_filter_fst:
  "AList.delete k (filter (\<lambda>q. fst q \<notin> S) c) = filter (\<lambda>q. fst q \<notin> insert k S) c"
  by (induction c) (auto simp: AList.delete_eq)

lemma delete_as_filter: "AList.delete k c = filter (\<lambda>q. fst q \<notin> {k}) c"
  by (induction c) (auto simp: AList.delete_eq)

lemma filter_delete_fst:
  "filter (\<lambda>q. fst q \<notin> S) (AList.delete k c) = filter (\<lambda>q. fst q \<notin> insert k S) c"
  by (induction c) (auto simp: AList.delete_eq)

lemma delete_idem: "AList.delete k (AList.delete k r) = AList.delete k r"
  by (induction r) (auto simp: AList.delete_eq)

lemma match_creates_eq:
  "match_creates path1 info1 xs (removes, creates, evt) =
     (if matched info1 xs = [] then removes else AList.delete path1 removes,
      filter (\<lambda>q. fst q \<notin> fst ` set (matched info1 xs)) creates,
      evt @ map (\<lambda>x. rename_event path1 info1 (fst x)) (matched info1 xs))"
proof (induction xs arbitrary: removes creates evt)
  case Nil
  then show ?case by (simp add: matched_def)
next
  case (Cons x xs)
  obtain p i where x: "x = (p, i)" by (cases x)
  show ?case
  proof (cases "sameFile info1 i")
    case True
    then have m: "matched info1 (x # xs) = (p, i) # matched info1 xs"
      by (simp add: matched_def x)
    have "match_creates path1 info1 (x # xs) (removes, creates, evt)
           = match_creates path1 info1 xs
               (AList.delete path1 removes, AList.delete p creates,
                evt @ [rename_event path1 info1 p])"
      using True by (simp add: x)
    also have "\<dots> =
       (if matched info1 xs = [] then AList.delete path1 removes
        else AList.delete path1 (AList.delete path1 removes),
        filter (\<lambda>q. fst q \<notin> fst ` set (matched info1 xs)) (AList.delete p creates),
        (evt @ [rename_event path1 info1 p])
          @ map (\<lambda>x. rename_event path1 info1 (fst x)) (matched info1 xs))"
      by (rule Cons.IH)
    finally show ?thesis
      by (simp add: m delete_idem filter_delete_fst)
  next
    case False
    then have m: "matched info1 (x # xs) = matched info1 xs"
      by (simp add: matched_def x)
    have "match_creates path1 info1 (x # xs) (removes, creates, evt)
           = match_creates path1 info1 xs (removes, creates, evt)"
      using False by (simp add: x)
    then show ?thesis by (simp add: m Cons.IH)
  qed
qed

lemma matched_set: "set (matched info1 xs) = {x \<in> set xs. sameFile info1 (snd x)}"
  by (auto simp: matched_def)

text \<open>The state after the outer loop: events only grow, the two maps only shrink.\<close>

lemma resolve_renames_events:
  assumes "range_ok rng"
  shows "\<exists>rs. snd (snd (resolve_renames rng xs (removes, creates, evt))) = evt @ rs
          \<and> (\<forall>e \<in> set rs. \<exists>x \<in> set xs. \<exists>y \<in> set creates.
                 sameFile (snd x) (snd y) \<and> e = rename_event (fst x) (snd x) (fst y))"
proof (induction xs arbitrary: removes creates evt)
  case Nil
  then show ?case by simp
next
  case (Cons x xs)
  obtain p i where x: "x = (p, i)" by (cases x)
  define ys where "ys = rng (Range_creates_inner p) creates"
  define r1 where "r1 = (if matched i ys = [] then removes else AList.delete p removes)"
  define c1 where "c1 = filter (\<lambda>q. fst q \<notin> fst ` set (matched i ys)) creates"
  define m where "m = map (\<lambda>x. rename_event p i (fst x)) (matched i ys)"
  have ys: "set ys = set creates" using assms by (simp add: ys_def range_ok_set)
  have step: "resolve_renames rng (x # xs) (removes, creates, evt)
                = resolve_renames rng xs (r1, c1, evt @ m)"
    by (simp add: x match_creates_eq ys_def r1_def c1_def m_def)
  from Cons.IH [of r1 c1 "evt @ m"] obtain rs where
    rs: "snd (snd (resolve_renames rng xs (r1, c1, evt @ m))) = (evt @ m) @ rs"
    and sh: "\<forall>e \<in> set rs. \<exists>x \<in> set xs. \<exists>y \<in> set c1.
                 sameFile (snd x) (snd y) \<and> e = rename_event (fst x) (snd x) (fst y)"
    by blast
  have c1: "set c1 \<subseteq> set creates" by (auto simp: c1_def)
  have a: "\<forall>e \<in> set m. \<exists>y \<in> set creates. sameFile i (snd y) \<and> e = rename_event p i (fst y)"
    by (force simp: m_def matched_set ys)
  have "\<forall>e \<in> set (m @ rs). \<exists>x' \<in> set (x # xs). \<exists>y \<in> set creates.
                 sameFile (snd x') (snd y) \<and> e = rename_event (fst x') (snd x') (fst y)"
  proof
    fix e assume "e \<in> set (m @ rs)"
    then consider "e \<in> set m" | "e \<in> set rs" by auto
    then show "\<exists>x' \<in> set (x # xs). \<exists>y \<in> set creates.
                 sameFile (snd x') (snd y) \<and> e = rename_event (fst x') (snd x') (fst y)"
    proof cases
      case 1
      with a obtain y where "y \<in> set creates" "sameFile i (snd y)" "e = rename_event p i (fst y)"
        by blast
      then show ?thesis by (intro bexI [where x = x] bexI [where x = y]) (simp_all add: x)
    next
      case 2
      with sh obtain x' y where "x' \<in> set xs" "y \<in> set c1"
        "sameFile (snd x') (snd y)" "e = rename_event (fst x') (snd x') (fst y)" by blast
      then show ?thesis using c1 by (intro bexI [where x = x'] bexI [where x = y]) auto
    qed
  qed
  moreover have "snd (snd (resolve_renames rng (x # xs) (removes, creates, evt))) = evt @ (m @ rs)"
    by (simp add: step rs)
  ultimately show ?case by blast
qed

lemma resolve_renames_complete:
  assumes rng: "range_ok rng"
  shows "distinct (map fst creates) \<Longrightarrow> x \<in> set xs \<Longrightarrow> y \<in> set creates
    \<Longrightarrow> sameFile (snd x) (snd y)
    \<Longrightarrow> \<exists>x' \<in> set xs. sameFile (snd x') (snd y)
          \<and> rename_event (fst x') (snd x') (fst y)
               \<in> set (snd (snd (resolve_renames rng xs (removes, creates, evt))))"
proof (induction xs arbitrary: removes creates evt)
  case Nil
  then show ?case by simp
next
  case (Cons z xs)
  obtain p i where z: "z = (p, i)" by (cases z)
  define ys where "ys = rng (Range_creates_inner p) creates"
  define r1 where "r1 = (if matched i ys = [] then removes else AList.delete p removes)"
  define c1 where "c1 = filter (\<lambda>q. fst q \<notin> fst ` set (matched i ys)) creates"
  define m where "m = map (\<lambda>x. rename_event p i (fst x)) (matched i ys)"
  have ys: "set ys = set creates" using rng by (simp add: ys_def range_ok_set)
  have step: "resolve_renames rng (z # xs) (removes, creates, evt)
                = resolve_renames rng xs (r1, c1, evt @ m)"
    by (simp add: z match_creates_eq ys_def r1_def c1_def m_def)
  from resolve_renames_events [OF rng, of xs r1 c1 "evt @ m"] obtain rs where
    rs: "snd (snd (resolve_renames rng xs (r1, c1, evt @ m))) = (evt @ m) @ rs" by blast
  have dc1: "distinct (map fst c1)" using Cons.prems(1) by (simp add: c1_def distinct_map_filter)
  have here: "rename_event p i (fst y) \<in> set m" if "sameFile i (snd y)"
    using that Cons.prems(3) by (auto simp: m_def matched_set ys)
  show ?case
  proof (cases "sameFile i (snd y)")
    case True
    then have "rename_event p i (fst y) \<in> set (snd (snd (resolve_renames rng (z # xs) (removes, creates, evt))))"
      using here by (simp add: step rs)
    with True show ?thesis by (intro bexI [where x = z]) (simp_all add: z)
  next
    case False
    then have xz: "x \<noteq> z" using Cons.prems(4) by (auto simp: z)
    then have xin: "x \<in> set xs" using Cons.prems(2) by simp
    have "fst y \<notin> fst ` set (matched i ys)"
    proof
      assume "fst y \<in> fst ` set (matched i ys)"
      then obtain y' where y': "y' \<in> set creates" "sameFile i (snd y')" "fst y' = fst y"
        by (auto simp: matched_set ys)
      from Cons.prems(1) y'(1) Cons.prems(3) y'(3) have "y' = y"
        by (metis eq_key_imp_eq_value prod.collapse)
      with y'(2) False show False by simp
    qed
    then have yc1: "y \<in> set c1" using Cons.prems(3) by (simp add: c1_def)
    from Cons.IH [OF dc1 xin yc1 Cons.prems(4), of r1 "evt @ m"] obtain x' where
      "x' \<in> set xs" "sameFile (snd x') (snd y)"
      "rename_event (fst x') (snd x') (fst y) \<in> set (snd (snd (resolve_renames rng xs (r1, c1, evt @ m))))"
      by blast
    then show ?thesis by (intro bexI [where x = x']) (simp_all add: step)
  qed
qed

lemma pollEvents_unfold:
  "pollEvents rng w_files files' =
     (let removes = collect_removes files' (rng Range_w_files w_files) [];
          sc = scan_files w_files (rng Range_files files') ([], []);
          st = resolve_renames rng (rng Range_removes removes) (removes, fst sc, snd sc)
      in snd (snd st) @ create_events (rng Range_creates (fst (snd st)))
           @ remove_events (rng Range_removes_left (fst st)))"
  by (simp add: pollEvents_def Let_def split: prod.splits)

lemma rename_event_Op: "Op (rename_event p i q) = Rename \<or> Op (rename_event p i q) = Move"
  by (simp add: rename_event_def)

lemma resolve_renames_Op:
  "\<exists>rs. snd (snd (resolve_renames rng xs (removes, creates, evt))) = evt @ rs
          \<and> (\<forall>e \<in> set rs. Op e = Rename \<or> Op e = Move)"
proof (induction xs arbitrary: removes creates evt)
  case Nil
  then show ?case by simp
next
  case (Cons x xs)
  obtain p i where x: "x = (p, i)" by (cases x)
  define ys where "ys = rng (Range_creates_inner p) creates"
  define r1 where "r1 = (if matched i ys = [] then removes else AList.delete p removes)"
  define c1 where "c1 = filter (\<lambda>q. fst q \<notin> fst ` set (matched i ys)) creates"
  define m where "m = map (\<lambda>x. rename_event p i (fst x)) (matched i ys)"
  have step: "resolve_renames rng (x # xs) (removes, creates, evt)
                = resolve_renames rng xs (r1, c1, evt @ m)"
    by (simp add: x match_creates_eq ys_def r1_def c1_def m_def)
  from Cons.IH [of r1 c1 "evt @ m"] obtain rs where
    rs: "snd (snd (resolve_renames rng xs (r1, c1, evt @ m))) = (evt @ m) @ rs"
    and sh: "\<forall>e \<in> set rs. Op e = Rename \<or> Op e = Move"
    by blast
  have "\<forall>e \<in> set m. Op e = Rename \<or> Op e = Move"
    using rename_event_Op by (auto simp: m_def)
  with sh have "\<forall>e \<in> set (m @ rs). Op e = Rename \<or> Op e = Move" by auto
  moreover have "snd (snd (resolve_renames rng (x # xs) (removes, creates, evt))) = evt @ (m @ rs)"
    by (simp add: step rs)
  ultimately show ?case by blast
qed

lemma sorted_map_const: "\<forall>x \<in> set xs. f x = (c::nat) \<Longrightarrow> sorted (map f xs)"
  by (induction xs) auto

lemma removes_candidates:
  assumes rng: "range_ok rng" and d1: "distinct (map fst w_files)"
  shows "collect_removes files' (rng Range_w_files w_files) []
           = filter (\<lambda>x. map_of files' (fst x) = None) (rng Range_w_files w_files)"
  using collect_removes_eq [OF range_ok_distinct [OF rng d1], of "[]" Range_w_files files']
  by simp

lemma creates_candidates:
  assumes rng: "range_ok rng" and d2: "distinct (map fst files')"
  shows "fst (scan_files w_files (rng Range_files files') ([], []))
           = filter (\<lambda>x. map_of w_files (fst x) = None) (rng Range_files files')"
  using scan_files_creates [OF range_ok_distinct [OF rng d2], of "[]" Range_files w_files "[]"]
  by simp

lemma in_snapshot_map_of:
  "distinct (map fst m) \<Longrightarrow> x \<in> set m \<Longrightarrow> map_of m (fst x) = Some (snd x)"
  by (cases x) simp

text \<open>The pairing events of one comparison and the candidates they come from.\<close>

lemma pollEvents_pairing:
  assumes rng: "range_ok rng"
    and d1: "distinct (map fst w_files)" and d2: "distinct (map fst files')"
  defines "R \<equiv> {x \<in> set w_files. map_of files' (fst x) = None}"
    and "C \<equiv> {y \<in> set files'. map_of w_files (fst y) = None}"
  shows "\<forall>e \<in> set (pollEvents rng w_files files'). Op e = Rename \<or> Op e = Move \<longrightarrow>
           (\<exists>x \<in> R. \<exists>y \<in> C. sameFile (snd x) (snd y) \<and> e = rename_event (fst x) (snd x) (fst y))"
    and "\<forall>x \<in> R. \<forall>y \<in> C. sameFile (snd x) (snd y) \<longrightarrow>
           (\<exists>x' \<in> R. sameFile (snd x') (snd y)
              \<and> rename_event (fst x') (snd x') (fst y) \<in> set (pollEvents rng w_files files'))"
proof -
  define removes where "removes = collect_removes files' (rng Range_w_files w_files) []"
  define sc where "sc = scan_files w_files (rng Range_files files') ([], [])"
  define st where "st = resolve_renames rng (rng Range_removes removes) (removes, fst sc, snd sc)"
  define ws where "ws = concat (map (changed_events w_files) (rng Range_files files'))"
  define cs where "cs = create_events (rng Range_creates (fst (snd st)))"
  define ds where "ds = remove_events (rng Range_removes_left (fst st))"
  have sc: "snd sc = ws"
    using scan_files_evt [of w_files "rng Range_files files'" "[]" "[]"] by (simp add: sc_def ws_def)
  have Rset: "set (rng Range_removes removes) = R"
    by (simp add: range_ok_set [OF rng] removes_def removes_candidates [OF rng d1] R_def)
  have Cset: "set (fst sc) = C"
    by (simp add: range_ok_set [OF rng] sc_def creates_candidates [OF rng d2] C_def)
  have dC: "distinct (map fst (fst sc))"
    unfolding sc_def creates_candidates [OF rng d2]
    by (rule distinct_map_filter) (rule range_ok_distinct [OF rng d2])
  obtain rs where st: "snd (snd st) = snd sc @ rs"
    and rs: "\<forall>e \<in> set rs. \<exists>x \<in> R. \<exists>y \<in> C.
                 sameFile (snd x) (snd y) \<and> e = rename_event (fst x) (snd x) (fst y)"
    using resolve_renames_events [OF rng, of "rng Range_removes removes" removes "fst sc" "snd sc"]
    unfolding st_def Rset Cset by blast
  have "pollEvents rng w_files files' = snd (snd st) @ cs @ ds"
    unfolding pollEvents_unfold Let_def cs_def ds_def st_def sc_def removes_def by (rule refl)
  then have p: "pollEvents rng w_files files' = ws @ rs @ cs @ ds"
    by (simp add: st sc)
  have w0: "\<forall>e \<in> set ws. Op e = Write \<or> Op e = Chmod"
    using changed_events_Op by (fastforce simp: ws_def)
  have c2: "\<forall>e \<in> set cs. Op e = Create" by (auto simp: cs_def create_events_def)
  have d3: "\<forall>e \<in> set ds. Op e = Remove" by (auto simp: ds_def remove_events_def)
  show "\<forall>e \<in> set (pollEvents rng w_files files'). Op e = Rename \<or> Op e = Move \<longrightarrow>
           (\<exists>x \<in> R. \<exists>y \<in> C. sameFile (snd x) (snd y) \<and> e = rename_event (fst x) (snd x) (fst y))"
  proof (intro ballI impI)
    fix e assume e: "e \<in> set (pollEvents rng w_files files')" and o: "Op e = Rename \<or> Op e = Move"
    from e p consider "e \<in> set ws" | "e \<in> set rs" | "e \<in> set cs" | "e \<in> set ds" by auto
    then show "\<exists>x \<in> R. \<exists>y \<in> C. sameFile (snd x) (snd y) \<and> e = rename_event (fst x) (snd x) (fst y)"
    proof cases
      case 1 with w0 o show ?thesis by auto
    next
      case 2 with rs show ?thesis by blast
    next
      case 3 with c2 o show ?thesis by auto
    next
      case 4 with d3 o show ?thesis by auto
    qed
  qed
  show "\<forall>x \<in> R. \<forall>y \<in> C. sameFile (snd x) (snd y) \<longrightarrow>
           (\<exists>x' \<in> R. sameFile (snd x') (snd y)
              \<and> rename_event (fst x') (snd x') (fst y) \<in> set (pollEvents rng w_files files'))"
  proof (intro ballI impI)
    fix x y assume x: "x \<in> R" and y: "y \<in> C" and s: "sameFile (snd x) (snd y)"
    from x have x': "x \<in> set (rng Range_removes removes)" by (simp only: Rset)
    from y have y': "y \<in> set (fst sc)" by (simp only: Cset)
    from resolve_renames_complete [OF rng dC x' y' s, of removes "snd sc"]
    obtain x' where "x' \<in> set (rng Range_removes removes)" "sameFile (snd x') (snd y)"
      "rename_event (fst x') (snd x') (fst y) \<in> set (snd (snd st))"
      unfolding st_def by blast
    moreover have "set (snd (snd st)) \<subseteq> set (pollEvents rng w_files files')"
      using \<open>pollEvents rng w_files files' = snd (snd st) @ cs @ ds\<close> by auto
    ultimately show "\<exists>x' \<in> R. sameFile (snd x') (snd y)
              \<and> rename_event (fst x') (snd x') (fst y) \<in> set (pollEvents rng w_files files')"
      unfolding Rset by blast
  qed
qed

lemmas poll_eval = pollEvents_def listed_order_def sameFile_def rename_event_def Dir_def
  Clean_def cleanStep_def create_events_def remove_events_def file_meta_def

subsection \<open>One removal candidate, two pairings\<close>

text \<open>
  Claim C1. The old snapshot holds \<^verbatim>\<open>/a/x\<close>; the new one holds \<^verbatim>\<open>/a/y\<close> and
  \<^verbatim>\<open>/a/z\<close> instead, both with the metadata of \<^verbatim>\<open>/a/x\<close>. The inner loop has no
  \<^verbatim>\<open>break\<close>, so after pairing \<^verbatim>\<open>/a/x\<close> with \<^verbatim>\<open>/a/y\<close> it pairs the same
  \<^verbatim>\<open>/a/x\<close> with \<^verbatim>\<open>/a/z\<close>: the removal candidate is consumed twice and has two
  terminal events.
\<close>

theorem pollEvents_two_renames_of_one_path:
  "pollEvents listed_order [(''/a/x'', file_meta ''x'')]
       [(''/a/y'', file_meta ''y''), (''/a/z'', file_meta ''z'')]
   = [\<lparr>Op = Rename, Path = ''/a/x -> /a/y'', FileInfo = file_meta ''x''\<rparr>,
      \<lparr>Op = Rename, Path = ''/a/x -> /a/z'', FileInfo = file_meta ''x''\<rparr>]"
  by (simp add: poll_eval)

subsection \<open>Unchanged snapshots\<close>

text \<open>
  Claim C2. When the old and the new snapshot hold the same paths, and every path has the
  same modification time and the same mode in both, \<^verbatim>\<open>pollEvents\<close> sends no event
  at all, whatever the iteration orders: no \<^verbatim>\<open>Write\<close>, \<^verbatim>\<open>Chmod\<close>,
  \<^verbatim>\<open>Create\<close>, \<^verbatim>\<open>Remove\<close>, \<^verbatim>\<open>Rename\<close> or \<^verbatim>\<open>Move\<close>. Comparing a
  snapshot with itself is the case \<open>w_files = files'\<close>.
\<close>

theorem pollEvents_unchanged_no_events:
  assumes rng: "range_ok rng"
    and dist: "distinct (map fst files')"
    and keys: "fst ` set w_files = fst ` set files'"
    and same: "\<forall>path oldInfo info. map_of w_files path = Some oldInfo \<and> map_of files' path = Some info
                 \<longrightarrow> ModTime oldInfo = ModTime info \<and> Mode oldInfo = Mode info"
  shows "pollEvents rng w_files files' = []"
proof -
  have r: "collect_removes files' (rng Range_w_files w_files) [] = []"
  proof (rule collect_removes_all_found, rule ballI)
    fix x assume x: "x \<in> set (rng Range_w_files w_files)"
    then have "x \<in> set w_files" using rng by (simp add: range_ok_set)
    then have "fst x \<in> fst ` set w_files" by (rule imageI)
    then have "fst x \<in> fst ` set files'" by (simp only: keys)
    then show "map_of files' (fst x) \<noteq> None" by (simp add: map_of_eq_None_iff)
  qed
  have s: "scan_files w_files (rng Range_files files') ([], []) = ([], [])"
  proof (rule scan_files_unchanged, rule ballI)
    fix x assume "x \<in> set (rng Range_files files')"
    then have m: "x \<in> set files'" using rng by (simp add: range_ok_set)
    then have "(fst x, snd x) \<in> set files'" by simp
    then have mi: "map_of files' (fst x) = Some (snd x)" using dist by (rule map_of_is_SomeI [rotated])
    from m have "fst x \<in> fst ` set files'" by (rule imageI)
    then have "fst x \<in> fst ` set w_files" by (simp only: keys)
    then have "map_of w_files (fst x) \<noteq> None" by (simp add: map_of_eq_None_iff)
    then obtain old where o: "map_of w_files (fst x) = Some old" by blast
    have "ModTime old = ModTime (snd x) \<and> Mode old = Mode (snd x)"
      by (rule same [rule_format, OF conjI, OF o mi])
    with o show "\<exists>old. map_of w_files (fst x) = Some old
        \<and> ModTime old = ModTime (snd x) \<and> Mode old = Mode (snd x)"
      by blast
  qed
  show ?thesis
    unfolding pollEvents_def r s Let_def
    by (simp add: range_ok_Nil [OF rng] create_events_def remove_events_def)
qed

theorem pollEvents_unchanged_no_events_witness:
  "range_ok listed_order \<and> distinct (map fst snap_A)
     \<and> pollEvents listed_order snap_A snap_A = []"
proof -
  have d: "distinct (map fst snap_A)" by (simp add: snap_A_def)
  have s: "\<forall>path oldInfo info. map_of snap_A path = Some oldInfo \<and> map_of snap_A path = Some info
                 \<longrightarrow> ModTime oldInfo = ModTime info \<and> Mode oldInfo = Mode info"
    by (metis option.inject)
  from range_ok_listed_order d
    pollEvents_unchanged_no_events [OF range_ok_listed_order d refl s]
  show ?thesis by (intro conjI)
qed

subsection \<open>Renames and moves\<close>

text \<open>
  Claim C3. Every \<^verbatim>\<open>Rename\<close> or \<^verbatim>\<open>Move\<close> event of a comparison pairs a removal
  candidate (a path of the old snapshot that the new one lacks) with a creation candidate
  (a path of the new snapshot that the old one lacks) whose metadata are the same file:
  its operation is \<^verbatim>\<open>Rename\<close> when \<^verbatim>\<open>filepath.Dir\<close> of the two paths agrees and
  \<^verbatim>\<open>Move\<close> otherwise, its path is the old path, \<^verbatim>\<open>" -> "\<close> and the new path, and
  its metadata is the old entry's. Conversely, for every removal candidate and creation
  candidate that match, such an event is sent for that creation candidate, paired with a
  removal candidate that matches it.
\<close>

theorem pollEvents_rename_or_move:
  assumes rng: "range_ok rng"
    and d1: "distinct (map fst w_files)" and d2: "distinct (map fst files')"
  shows "(\<forall>e \<in> set (pollEvents rng w_files files'). Op e = Rename \<or> Op e = Move \<longrightarrow>
           (\<exists>path1 info1 path2 info2.
              map_of w_files path1 = Some info1 \<and> map_of files' path1 = None \<and>
              map_of files' path2 = Some info2 \<and> map_of w_files path2 = None \<and>
              sameFile info1 info2 \<and>
              e = \<lparr>Op = (if Dir path1 = Dir path2 then Rename else Move),
                    Path = path1 @ '' -> '' @ path2, FileInfo = info1\<rparr>))
       \<and> (\<forall>path1 info1 path2 info2.
              map_of w_files path1 = Some info1 \<and> map_of files' path1 = None \<and>
              map_of files' path2 = Some info2 \<and> map_of w_files path2 = None \<and>
              sameFile info1 info2 \<longrightarrow>
              (\<exists>path1' info1'.
                 map_of w_files path1' = Some info1' \<and> map_of files' path1' = None \<and>
                 sameFile info1' info2 \<and>
                 \<lparr>Op = (if Dir path1' = Dir path2 then Rename else Move),
                   Path = path1' @ '' -> '' @ path2, FileInfo = info1'\<rparr>
                   \<in> set (pollEvents rng w_files files')))"
proof (intro conjI ballI allI impI)
  fix e assume e: "e \<in> set (pollEvents rng w_files files')" and o: "Op e = Rename \<or> Op e = Move"
  from pollEvents_pairing(1) [OF rng d1 d2, rule_format, OF e o]
  obtain x y where x: "x \<in> set w_files" "map_of files' (fst x) = None"
    and y: "y \<in> set files'" "map_of w_files (fst y) = None"
    and s: "sameFile (snd x) (snd y)" and ev: "e = rename_event (fst x) (snd x) (fst y)"
    by blast
  have "map_of w_files (fst x) = Some (snd x)" by (rule in_snapshot_map_of [OF d1 x(1)])
  moreover have "map_of files' (fst y) = Some (snd y)" by (rule in_snapshot_map_of [OF d2 y(1)])
  ultimately show "\<exists>path1 info1 path2 info2.
              map_of w_files path1 = Some info1 \<and> map_of files' path1 = None \<and>
              map_of files' path2 = Some info2 \<and> map_of w_files path2 = None \<and>
              sameFile info1 info2 \<and>
              e = \<lparr>Op = (if Dir path1 = Dir path2 then Rename else Move),
                    Path = path1 @ '' -> '' @ path2, FileInfo = info1\<rparr>"
    using x(2) y(2) s ev unfolding rename_event_def by blast
next
  fix path1 info1 path2 info2
  assume a: "map_of w_files path1 = Some info1 \<and> map_of files' path1 = None \<and>
              map_of files' path2 = Some info2 \<and> map_of w_files path2 = None \<and>
              sameFile info1 info2"
  then have x: "(path1, info1) \<in> {x \<in> set w_files. map_of files' (fst x) = None}"
    and y: "(path2, info2) \<in> {y \<in> set files'. map_of w_files (fst y) = None}"
    by (auto dest: map_of_SomeD)
  from a have s: "sameFile (snd (path1, info1)) (snd (path2, info2))" by simp
  from pollEvents_pairing(2) [OF rng d1 d2, rule_format, OF x y s]
  obtain x' where x': "x' \<in> set w_files" "map_of files' (fst x') = None"
    and s': "sameFile (snd x') info2"
    and ev: "rename_event (fst x') (snd x') path2 \<in> set (pollEvents rng w_files files')"
    by auto
  have "map_of w_files (fst x') = Some (snd x')" by (rule in_snapshot_map_of [OF d1 x'(1)])
  then show "\<exists>path1' info1'.
                 map_of w_files path1' = Some info1' \<and> map_of files' path1' = None \<and>
                 sameFile info1' info2 \<and>
                 \<lparr>Op = (if Dir path1' = Dir path2 then Rename else Move),
                   Path = path1' @ '' -> '' @ path2, FileInfo = info1'\<rparr>
                   \<in> set (pollEvents rng w_files files')"
    using x'(2) s' ev unfolding rename_event_def by blast
qed

theorem pollEvents_rename_or_move_witness:
  "range_ok listed_order \<and> distinct (map fst dir_a_x) \<and> distinct (map fst dir_a_y)
   \<and> (\<exists>path1' info1'.
         map_of dir_a_x path1' = Some info1' \<and> map_of dir_a_y path1' = None \<and>
         sameFile info1' (file_meta ''y'') \<and>
         \<lparr>Op = (if Dir path1' = Dir ''/a/y'' then Rename else Move),
           Path = path1' @ '' -> '' @ ''/a/y'', FileInfo = info1'\<rparr>
           \<in> set (pollEvents listed_order dir_a_x dir_a_y))
   \<and> pollEvents listed_order dir_a_x dir_a_y
        = [\<lparr>Op = Rename, Path = ''/a/x -> /a/y'', FileInfo = file_meta ''x''\<rparr>]
   \<and> pollEvents listed_order dir_a_x dir_b_x
        = [\<lparr>Op = Move, Path = ''/a/x -> /b/x'', FileInfo = file_meta ''x''\<rparr>]"
proof -
  have d1: "distinct (map fst dir_a_x)" by (simp add: dir_a_x_def)
  have d2: "distinct (map fst dir_a_y)" by (simp add: dir_a_y_def)
  have c: "map_of dir_a_x ''/a/x'' = Some (file_meta ''x'') \<and> map_of dir_a_y ''/a/x'' = None \<and>
           map_of dir_a_y ''/a/y'' = Some (file_meta ''y'') \<and> map_of dir_a_x ''/a/y'' = None \<and>
           sameFile (file_meta ''x'') (file_meta ''y'')"
    by (simp add: dir_a_x_def dir_a_y_def sameFile_def file_meta_def)
  note t = pollEvents_rename_or_move [OF range_ok_listed_order d1 d2]
  have e: "\<exists>path1' info1'.
         map_of dir_a_x path1' = Some info1' \<and> map_of dir_a_y path1' = None \<and>
         sameFile info1' (file_meta ''y'') \<and>
         \<lparr>Op = (if Dir path1' = Dir ''/a/y'' then Rename else Move),
           Path = path1' @ '' -> '' @ ''/a/y'', FileInfo = info1'\<rparr>
           \<in> set (pollEvents listed_order dir_a_x dir_a_y)"
    by (rule t [THEN conjunct2, rule_format, OF c])
  have r: "pollEvents listed_order dir_a_x dir_a_y
        = [\<lparr>Op = Rename, Path = ''/a/x -> /a/y'', FileInfo = file_meta ''x''\<rparr>]"
    by (simp add: poll_eval dir_a_x_def dir_a_y_def)
  have m: "pollEvents listed_order dir_a_x dir_b_x
        = [\<lparr>Op = Move, Path = ''/a/x -> /b/x'', FileInfo = file_meta ''x''\<rparr>]"
    by (simp add: poll_eval dir_a_x_def dir_b_x_def)
  from range_ok_listed_order d1 d2 e r m show ?thesis by (intro conjI)
qed

subsection \<open>Order of the events\<close>

text \<open>
  Claim C4. The events of one comparison are ordered by category, for all snapshots and all
  iteration orders: every \<^verbatim>\<open>Write\<close> and \<^verbatim>\<open>Chmod\<close> comes before every
  \<^verbatim>\<open>Rename\<close> and \<^verbatim>\<open>Move\<close>, these come before every \<^verbatim>\<open>Create\<close>, and every
  \<^verbatim>\<open>Create\<close> comes before every \<^verbatim>\<open>Remove\<close>. (\<open>phase\<close> numbers the categories;
  the sequence of the events' numbers is sorted.)
\<close>

theorem pollEvents_ordered_by_category:
  "sorted (map (\<lambda>e. phase (Op e)) (pollEvents rng w_files files'))"
proof -
  define removes where "removes = collect_removes files' (rng Range_w_files w_files) []"
  define sc where "sc = scan_files w_files (rng Range_files files') ([], [])"
  define st where "st = resolve_renames rng (rng Range_removes removes) (removes, fst sc, snd sc)"
  define ws where "ws = concat (map (changed_events w_files) (rng Range_files files'))"
  define cs where "cs = create_events (rng Range_creates (fst (snd st)))"
  define ds where "ds = remove_events (rng Range_removes_left (fst st))"
  have sc: "snd sc = ws"
    using scan_files_evt [of w_files "rng Range_files files'" "[]" "[]"] by (simp add: sc_def ws_def)
  obtain rs where st: "snd (snd st) = snd sc @ rs"
    and rs: "\<forall>e \<in> set rs. Op e = Rename \<or> Op e = Move"
    using resolve_renames_Op [of rng "rng Range_removes removes" removes "fst sc" "snd sc"]
    unfolding st_def by blast
  have "pollEvents rng w_files files' = snd (snd st) @ cs @ ds"
    unfolding pollEvents_unfold Let_def cs_def ds_def st_def sc_def removes_def by (rule refl)
  then have p: "pollEvents rng w_files files' = ws @ rs @ cs @ ds"
    by (simp add: st sc)
  have w0: "\<forall>e \<in> set ws. phase (Op e) = 0"
    using changed_events_Op by (fastforce simp: ws_def)
  have r1: "\<forall>e \<in> set rs. phase (Op e) = 1" using rs by auto
  have c2: "\<forall>e \<in> set cs. phase (Op e) = 2" by (auto simp: cs_def create_events_def)
  have d3: "\<forall>e \<in> set ds. phase (Op e) = 3" by (auto simp: ds_def remove_events_def)
  show ?thesis
    unfolding p
    using w0 r1 c2 d3
    by (auto simp: sorted_append sorted_map_const [OF w0] sorted_map_const [OF r1]
        sorted_map_const [OF c2] sorted_map_const [OF d3])
qed

theorem pollEvents_ordered_by_category_witness:
  "sorted (map (\<lambda>e. phase (Op e)) (pollEvents listed_order snap_old snap_new))
   \<and> map Op (pollEvents listed_order snap_old snap_new) = [Write, Chmod, Move, Create, Remove]"
  using pollEvents_ordered_by_category [of listed_order snap_old snap_new]
  by (simp add: poll_eval snap_old_def snap_new_def)

section \<open>Properties of the watcher\<close>

subsection \<open>The dispatch loop in closed form\<close>

lemma inner_sent:
  "snd (snd (inner w cases n sent)) =
     sent @ (if 0 < maxEvents w then take (nat (maxEvents w - n)) (filter (passes w) (arrived cases))
             else filter (passes w) (arrived cases))"
proof (induction w cases n sent rule: inner.induct)
  case (4 w event rest numEvents sent)
  show ?case
  proof (cases "ops w \<noteq> {} \<and> Op event \<notin> ops w")
    case True
    then have "\<not> passes w event" by (simp add: passes_def)
    with True 4(1) show ?thesis by simp
  next
    case nf: False
    then have p: "passes w event" by (auto simp: passes_def)
    have step: "inner w (Recv_evt event # rest) numEvents sent =
        (if maxEvents w > 0 \<and> numEvents + 1 > maxEvents w
         then (Exit_cancel, numEvents + 1, sent)
         else inner w rest (numEvents + 1) (sent @ [event]))"
      using nf by auto
    show ?thesis
    proof (cases "maxEvents w > 0 \<and> numEvents + 1 > maxEvents w")
      case True
      then have "nat (maxEvents w - numEvents) = 0" by simp
      with True p show ?thesis unfolding step by simp
    next
      case no_cap: False
      have ih: "snd (snd (inner w rest (numEvents + 1) (sent @ [event]))) =
        (sent @ [event]) @ (if 0 < maxEvents w
           then take (nat (maxEvents w - (numEvents + 1))) (filter (passes w) (arrived rest))
           else filter (passes w) (arrived rest))"
        using 4(2) nf no_cap by blast
      show ?thesis
      proof (cases "0 < maxEvents w")
        case True
        with no_cap have "nat (maxEvents w - numEvents) = Suc (nat (maxEvents w - (numEvents + 1)))"
          by simp
        with True no_cap ih p show ?thesis unfolding step by simp
      next
        case False
        with no_cap ih p show ?thesis unfolding step by simp
      qed
    qed
  qed
qed simp_all

lemma inner_forwarded: "snd (snd (inner w cases 0 [])) = forwarded w cases"
  by (simp add: inner_sent forwarded_def)

lemma RemoveRecursive_policy:
  "ops (snd (RemoveRecursive os name w)) = ops w \<and>
   maxEvents (snd (RemoveRecursive os name w)) = maxEvents w"
  by (simp add: RemoveRecursive_def Let_def split: sum.splits option.splits)

lemma Remove_path_policy:
  "ops (snd (Remove_path os name w)) = ops w \<and>
   maxEvents (snd (Remove_path os name w)) = maxEvents w"
  by (simp add: Remove_path_def Let_def split: sum.splits option.splits)

lemma retrieve_names_policy:
  "ops (fst (retrieve_names os ns (w, fileList, errs))) = ops w \<and>
   maxEvents (fst (retrieve_names os ns (w, fileList, errs))) = maxEvents w"
proof (induction ns arbitrary: w fileList errs)
  case Nil
  then show ?case by simp
next
  case (Cons x ns)
  obtain name recursive where x: "x = (name, recursive)" by (cases x)
  show ?case
    using Cons.IH RemoveRecursive_policy [of os name w] Remove_path_policy [of os name w]
    by (simp add: x split: prod.splits option.splits sum.splits)
qed

lemma retrieveFileList_policy:
  "ops (fst (retrieveFileList os order w)) = ops w \<and>
   maxEvents (fst (retrieveFileList os order w)) = maxEvents w"
  by (simp add: retrieveFileList_def retrieve_names_policy)

lemma forwarded_cong:
  "ops w1 = ops w \<Longrightarrow> maxEvents w1 = maxEvents w \<Longrightarrow> forwarded w1 cases = forwarded w cases"
  by (simp add: forwarded_def passes_def [abs_def])

lemma poll_loop_sents:
  "poll_loop cycles w = (exit, w', sents, errs) \<Longrightarrow>
   length sents \<le> length cycles \<and>
   sents = map (\<lambda>c. forwarded w (cycle_select c)) (take (length sents) cycles)"
proof (induction cycles arbitrary: w exit w' sents errs)
  case Nil
  then show ?case by simp
next
  case (Cons c cs)
  obtain w1 fileList errs1 where r: "retrieveFileList (cycle_os c) (cycle_order c) w = (w1, fileList, errs1)"
    by (cases "retrieveFileList (cycle_os c) (cycle_order c) w") auto
  obtain ex n sent where i: "inner w1 (cycle_select c) 0 [] = (ex, n, sent)"
    by (cases "inner w1 (cycle_select c) 0 []") auto
  have pol: "ops w1 = ops w" "maxEvents w1 = maxEvents w"
    using retrieveFileList_policy [of "cycle_os c" "cycle_order c" w] by (simp_all add: r)
  have sent: "sent = forwarded w (cycle_select c)"
    using inner_forwarded [of w1 "cycle_select c"] forwarded_cong [OF pol] by (simp add: i)
  show ?case
  proof (cases "ex = Exit_closed \<or> ex = Exit_waiting")
    case True
    then have "sents = [sent]" using Cons.prems by (auto simp: r i)
    then show ?thesis by (simp add: sent)
  next
    case False
    obtain exit2 w2 sents2 errs2 where
      p: "poll_loop cs (w1\<lparr>files := fileList\<rparr>) = (exit2, w2, sents2, errs2)"
      by (cases "poll_loop cs (w1\<lparr>files := fileList\<rparr>)") auto
    from False Cons.prems have s: "sents = sent # sents2"
      by (cases ex) (simp_all add: r i p)
    have pol2: "ops (w1\<lparr>files := fileList\<rparr>) = ops w" "maxEvents (w1\<lparr>files := fileList\<rparr>) = maxEvents w"
      using pol by simp_all
    from Cons.IH [OF p] have "length sents2 \<le> length cs"
      and "sents2 = map (\<lambda>c. forwarded (w1\<lparr>files := fileList\<rparr>) (cycle_select c)) (take (length sents2) cs)"
      by simp_all
    then show ?thesis using forwarded_cong [OF pol2] by (simp add: s sent)
  qed
qed

lemmas dispatch_eval = w_one_def FilterOps_def SetMaxEvents_def New_def burst_def ev_def
  two_cycles_def retrieveFileList_def

lemmas os_eval = os_a_def unix_os_def unix_Abs_def Clean_def cleanStep_def Join_def

subsection \<open>Maps as association lists\<close>

lemma map_of_filter_key:
  "map_of (filter (\<lambda>x. P (fst x)) m) k = (if P k then map_of m k else None)"
  by (induction m) auto

lemma filter_case_prod_fst: "filter (\<lambda>(path, _). P path) m = filter (\<lambda>x. P (fst x)) m"
  by (induction m) auto

lemma keys_delete: "fst ` set (AList.delete k m) = fst ` set m - {k}"
  by (induction m) auto

lemma keys_filter_subset: "fst ` set (filter P m) \<subseteq> fst ` set m"
  by auto

lemma map_of_None_keys: "map_of m k = None \<longleftrightarrow> k \<notin> fst ` set m"
  by (simp add: map_of_eq_None_iff)

subsection \<open>\<^verbatim>\<open>RemoveRecursive\<close> and \<^verbatim>\<open>Ignore\<close>\<close>

lemma RemoveRecursive_fails:
  "Abs os name0 = Inl err \<Longrightarrow> RemoveRecursive os name0 w = (Some err, w)"
  by (simp add: RemoveRecursive_def)

lemma RemoveRecursive_purges:
  assumes a: "Abs os name0 = Inr name"
  shows "fst (RemoveRecursive os name0 w) = None"
    and "ignored (snd (RemoveRecursive os name0 w)) = ignored w"
    and "name \<notin> fst ` set (names (snd (RemoveRecursive os name0 w)))"
    and "name \<notin> fst ` set (files (snd (RemoveRecursive os name0 w)))"
    and "fst ` set (names (snd (RemoveRecursive os name0 w))) \<subseteq> fst ` set (names w)"
    and "fst ` set (files (snd (RemoveRecursive os name0 w))) \<subseteq> fst ` set (files w)"
proof -
  consider (absent) "map_of (files w) name = None"
    | (is_file) info where "map_of (files w) name = Some info" "\<not> IsDir info"
    | (is_dir) info where "map_of (files w) name = Some info" "IsDir info"
    by (cases "map_of (files w) name") auto
  then have "fst (RemoveRecursive os name0 w) = None
    \<and> ignored (snd (RemoveRecursive os name0 w)) = ignored w
    \<and> name \<notin> fst ` set (names (snd (RemoveRecursive os name0 w)))
    \<and> name \<notin> fst ` set (files (snd (RemoveRecursive os name0 w)))
    \<and> fst ` set (names (snd (RemoveRecursive os name0 w))) \<subseteq> fst ` set (names w)
    \<and> fst ` set (files (snd (RemoveRecursive os name0 w))) \<subseteq> fst ` set (files w)"
  proof cases
    case absent
    then have "RemoveRecursive os name0 w = (None, w\<lparr>names := AList.delete name (names w)\<rparr>)"
      using a by (simp add: RemoveRecursive_def Let_def)
    then show ?thesis using absent by (auto simp: keys_delete map_of_None_keys)
  next
    case is_file
    then have "RemoveRecursive os name0 w =
       (None, w\<lparr>names := AList.delete name (names w), files := AList.delete name (files w)\<rparr>)"
      using a by (simp add: RemoveRecursive_def Let_def)
    then show ?thesis by (auto simp: keys_delete)
  next
    case is_dir
    then have "RemoveRecursive os name0 w =
       (None, w\<lparr>names := AList.delete name (names w),
                files := filter (\<lambda>x. \<not> HasPrefix (fst x) name) (files w)\<rparr>)"
      using a by (simp add: RemoveRecursive_def Let_def filter_case_prod_fst)
    then show ?thesis by (auto simp: keys_delete HasPrefix_def)
  qed
  then show "fst (RemoveRecursive os name0 w) = None"
    and "ignored (snd (RemoveRecursive os name0 w)) = ignored w"
    and "name \<notin> fst ` set (names (snd (RemoveRecursive os name0 w)))"
    and "name \<notin> fst ` set (files (snd (RemoveRecursive os name0 w)))"
    and "fst ` set (names (snd (RemoveRecursive os name0 w))) \<subseteq> fst ` set (names w)"
    and "fst ` set (files (snd (RemoveRecursive os name0 w))) \<subseteq> fst ` set (files w)"
    by blast+
qed

lemma Ignore_Cons_ok:
  assumes "Abs os path0 = Inr path" "Abs os path = Inr name"
  shows "Ignore os (path0 # paths) w =
           Ignore os paths ((snd (RemoveRecursive os path w))\<lparr>ignored :=
              insert path (ignored (snd (RemoveRecursive os path w)))\<rparr>)"
  using assms RemoveRecursive_purges(1) [OF assms(2), of w]
  by (cases "RemoveRecursive os path w") simp

lemma Ignore_Cons_success:
  assumes "Ignore os (path0 # paths) w = (None, w1)"
  obtains path name where "Abs os path0 = Inr path" "Abs os path = Inr name"
    "Ignore os paths ((snd (RemoveRecursive os path w))\<lparr>ignored :=
              insert path (ignored (snd (RemoveRecursive os path w)))\<rparr>) = (None, w1)"
proof (cases "Abs os path0")
  case (Inl e)
  with assms show ?thesis by simp
next
  case (Inr path)
  show ?thesis
  proof (cases "Abs os path")
    case (Inl e)
    with Inr assms show ?thesis by (simp add: RemoveRecursive_fails)
  next
    case (Inr name)
    with \<open>Abs os path0 = Inr path\<close> assms that show ?thesis
      by (simp add: Ignore_Cons_ok del: Ignore.simps)
  qed
qed

lemma Ignore_success:
  "Ignore os paths w = (None, w1) \<Longrightarrow>
     ignored w1 = ignored w \<union> {q. \<exists>p \<in> set paths. Abs os p = Inr q}
     \<and> fst ` set (names w1) \<subseteq> fst ` set (names w)
     \<and> fst ` set (files w1) \<subseteq> fst ` set (files w)
     \<and> (\<forall>p \<in> set paths. \<forall>q r. Abs os p = Inr q \<and> Abs os q = Inr r \<longrightarrow>
           r \<notin> fst ` set (names w1) \<and> r \<notin> fst ` set (files w1))"
proof (induction paths arbitrary: w)
  case Nil
  then show ?case by simp
next
  case (Cons path0 paths)
  from Cons.prems obtain path name where a: "Abs os path0 = Inr path" "Abs os path = Inr name"
    and rest: "Ignore os paths ((snd (RemoveRecursive os path w))\<lparr>ignored :=
              insert path (ignored (snd (RemoveRecursive os path w)))\<rparr>) = (None, w1)"
    by (rule Ignore_Cons_success)
  define w2 where "w2 = (snd (RemoveRecursive os path w))\<lparr>ignored :=
              insert path (ignored (snd (RemoveRecursive os path w)))\<rparr>"
  note p = RemoveRecursive_purges [OF a(2), of w]
  have w2: "ignored w2 = insert path (ignored w)"
    "name \<notin> fst ` set (names w2)" "name \<notin> fst ` set (files w2)"
    "fst ` set (names w2) \<subseteq> fst ` set (names w)" "fst ` set (files w2) \<subseteq> fst ` set (files w)"
    using p by (simp_all add: w2_def)
  have r2: "Ignore os paths w2 = (None, w1)" using rest by (simp only: w2_def)
  note c = Cons.IH [OF r2]
  have ih:
    "ignored w1 = ignored w2 \<union> {q. \<exists>p \<in> set paths. Abs os p = Inr q}"
    "fst ` set (names w1) \<subseteq> fst ` set (names w2)"
    "fst ` set (files w1) \<subseteq> fst ` set (files w2)"
    "\<forall>p \<in> set paths. \<forall>q r. Abs os p = Inr q \<and> Abs os q = Inr r \<longrightarrow>
           r \<notin> fst ` set (names w1) \<and> r \<notin> fst ` set (files w1)"
    using c by (rule conjunct1, rule conjunct2 [THEN conjunct1],
      rule conjunct2 [THEN conjunct2, THEN conjunct1], rule conjunct2 [THEN conjunct2, THEN conjunct2])
  have "{q. \<exists>p \<in> set (path0 # paths). Abs os p = Inr q}
          = insert path {q. \<exists>p \<in> set paths. Abs os p = Inr q}"
    using a(1) by auto
  then have 1: "ignored w1 = ignored w \<union> {q. \<exists>p \<in> set (path0 # paths). Abs os p = Inr q}"
    unfolding ih(1) w2(1) by simp
  have 2: "fst ` set (names w1) \<subseteq> fst ` set (names w)" using ih(2) w2(4) by blast
  have 3: "fst ` set (files w1) \<subseteq> fst ` set (files w)" using ih(3) w2(5) by blast
  have 4: "\<forall>p \<in> set (path0 # paths). \<forall>q r. Abs os p = Inr q \<and> Abs os q = Inr r \<longrightarrow>
           r \<notin> fst ` set (names w1) \<and> r \<notin> fst ` set (files w1)"
  proof (intro ballI allI impI)
    fix p q r assume p: "p \<in> set (path0 # paths)" and q: "Abs os p = Inr q \<and> Abs os q = Inr r"
    show "r \<notin> fst ` set (names w1) \<and> r \<notin> fst ` set (files w1)"
    proof (cases "p = path0")
      case True
      with q a have "r = name" by simp
      then show ?thesis using w2(2,3) ih(2,3) by blast
    next
      case False
      with p have "p \<in> set paths" by simp
      with ih(4) q show ?thesis by blast
    qed
  qed
  from 1 2 3 4 show ?case by (intro conjI)
qed

lemma Ignore_append:
  "Ignore os paths w = (None, w1) \<Longrightarrow> Ignore os (paths @ tl_paths) w = Ignore os tl_paths w1"
proof (induction paths arbitrary: w)
  case Nil
  then show ?case by simp
next
  case (Cons path0 paths)
  from Cons.prems obtain path name where a: "Abs os path0 = Inr path" "Abs os path = Inr name"
    and rest: "Ignore os paths ((snd (RemoveRecursive os path w))\<lparr>ignored :=
              insert path (ignored (snd (RemoveRecursive os path w)))\<rparr>) = (None, w1)"
    by (rule Ignore_Cons_success)
  have "Ignore os ((path0 # paths) @ tl_paths) w =
          Ignore os (paths @ tl_paths) ((snd (RemoveRecursive os path w))\<lparr>ignored :=
              insert path (ignored (snd (RemoveRecursive os path w)))\<rparr>)"
    using Ignore_Cons_ok [OF a, of "paths @ tl_paths" w] by simp
  also have "\<dots> = Ignore os tl_paths w1" by (rule Cons.IH [OF rest])
  finally show ?case .
qed

subsection \<open>Filter and cap of one cycle\<close>

text \<open>
  Claim C5. In the inner loop of \<^verbatim>\<open>Start\<close>, an event whose operation is not in a
  non-empty \<^verbatim>\<open>w.ops\<close> is dropped: the loop goes on with \<^verbatim>\<open>numEvents\<close> and the
  events sent so far unchanged. With a positive \<^verbatim>\<open>maxEvents\<close> of \<open>n\<close>, the events
  that reach \<^verbatim>\<open>w.Event\<close> in a cycle are the first \<open>n\<close> arrived events that pass the
  filter, so at most \<open>n\<close>. Across the cycles of the outer loop, what a cycle sends is
  computed from the events that arrived in that same cycle: an event beyond the cap is sent
  in no later cycle.
\<close>

theorem dispatch_filter_and_cap:
  "(ops w \<noteq> {} \<and> Op event \<notin> ops w \<longrightarrow>
      inner w (Recv_evt event # rest) numEvents sent = inner w rest numEvents sent)
   \<and> (0 < maxEvents w \<longrightarrow>
        snd (snd (inner w cases 0 []))
          = take (nat (maxEvents w)) (filter (passes w) (arrived cases))
        \<and> int (length (snd (snd (inner w cases 0 [])))) \<le> maxEvents w)
   \<and> (poll_loop cycles w = (exit, w', sents, errs) \<longrightarrow>
        length sents \<le> length cycles \<and>
        sents = map (\<lambda>c. forwarded w (cycle_select c)) (take (length sents) cycles))"
proof (intro conjI impI)
  assume "ops w \<noteq> {} \<and> Op event \<notin> ops w"
  then show "inner w (Recv_evt event # rest) numEvents sent = inner w rest numEvents sent"
    by simp
next
  assume m: "0 < maxEvents w"
  then show e: "snd (snd (inner w cases 0 []))
          = take (nat (maxEvents w)) (filter (passes w) (arrived cases))"
    by (simp add: inner_forwarded forwarded_def)
  show "int (length (snd (snd (inner w cases 0 [])))) \<le> maxEvents w"
    unfolding e using m by simp
next
  assume "poll_loop cycles w = (exit, w', sents, errs)"
  then show "length sents \<le> length cycles"
    and "sents = map (\<lambda>c. forwarded w (cycle_select c)) (take (length sents) cycles)"
    using poll_loop_sents by blast+
qed

theorem dispatch_filter_and_cap_witness:
  "ops w_one \<noteq> {} \<and> Op (ev Create ''/a/n'') \<notin> ops w_one \<and> 0 < maxEvents w_one
   \<and> inner w_one burst 0 [] = inner w_one (tl burst) 0 []
   \<and> int (length (snd (snd (inner w_one burst 0 [])))) \<le> 1
   \<and> inner w_one burst 0 [] = (Exit_cancel, 2, [ev Write ''/a/b''])
   \<and> poll_loop two_cycles w_one = (Return_nil, w_one, [[ev Write ''/a/b''], []], [])
   \<and> [[ev Write ''/a/b''], []]
        = map (\<lambda>c. forwarded w_one (cycle_select c)) (take 2 two_cycles)"
proof -
  have h: "ops w_one \<noteq> {} \<and> Op (ev Create ''/a/n'') \<notin> ops w_one"
    by (simp add: dispatch_eval)
  have m: "0 < maxEvents w_one" by (simp add: dispatch_eval)
  have p: "poll_loop two_cycles w_one = (Return_nil, w_one, [[ev Write ''/a/b''], []], [])"
    by (simp add: dispatch_eval)
  note t = dispatch_filter_and_cap [of w_one "ev Create ''/a/n''" "tl burst" 0 "[]" burst
      two_cycles Return_nil w_one "[[ev Write ''/a/b''], []]" "[]"]
  have 1: "inner w_one burst 0 [] = inner w_one (tl burst) 0 []"
    using t [THEN conjunct1, rule_format, OF h] by (simp add: burst_def)
  have 2: "int (length (snd (snd (inner w_one burst 0 [])))) \<le> 1"
    using t [THEN conjunct2, THEN conjunct1, rule_format, OF m, THEN conjunct2]
    by (simp add: w_one_def FilterOps_def SetMaxEvents_def)
  have 3: "[[ev Write ''/a/b''], []]
        = map (\<lambda>c. forwarded w_one (cycle_select c)) (take 2 two_cycles)"
    using t [THEN conjunct2, THEN conjunct2, rule_format, OF p, THEN conjunct2]
    by (simp add: numeral_2_eq_2)
  have 4: "inner w_one burst 0 [] = (Exit_cancel, 2, [ev Write ''/a/b''])"
    by (simp add: dispatch_eval)
  from h m 1 2 4 p 3 show ?thesis by (intro conjI) simp_all
qed

subsection \<open>Refused starts\<close>

text \<open>
  Claim C6. \<^verbatim>\<open>Start\<close> with a duration below one nanosecond returns
  \<^verbatim>\<open>ErrDurationTooShort\<close> and changes nothing in the watcher, and no cycle runs; on
  a watcher that was not running, a later \<^verbatim>\<open>Start\<close> with a valid duration therefore
  enters the loop. \<^verbatim>\<open>Start\<close> on a running watcher returns \<^verbatim>\<open>ErrWatcherRunning\<close>,
  changes nothing and runs no cycle: no second loop.
\<close>

theorem Start_refused:
  "(d < 1 \<longrightarrow> Start d cycles w = (Return_err ErrDurationTooShort, w, [], []))
   \<and> (1 \<le> d \<and> runnning w \<longrightarrow> Start d cycles w = (Return_err ErrWatcherRunning, w, [], []))
   \<and> (d < 1 \<and> 1 \<le> d' \<and> \<not> runnning w \<and> 0 < wg w \<longrightarrow>
        \<not> runnning (fst (snd (Start d cycles w)))
        \<and> Start d' cycles' (fst (snd (Start d cycles w)))
            = poll_loop cycles' (w\<lparr>runnning := True, wg := wg w - 1\<rparr>))"
  by (simp add: Start_def Let_def)

theorem Start_refused_witness:
  "Start 0 [] New = (Return_err ErrDurationTooShort, New, [], [])
   \<and> Start 1 [] (New\<lparr>runnning := True\<rparr>)
       = (Return_err ErrWatcherRunning, New\<lparr>runnning := True\<rparr>, [], [])
   \<and> \<not> runnning (fst (snd (Start 0 [] New)))
   \<and> Start 1 [] (fst (snd (Start 0 [] New)))
       = (Still_running, New\<lparr>runnning := True, wg := 0\<rparr>, [], [])"
proof -
  have a: "(0::int) < 1 \<and> (1::int) \<le> 1 \<and> \<not> runnning New \<and> 0 < wg New"
    by (simp add: New_def)
  have b: "(1::int) \<le> 1 \<and> runnning (New\<lparr>runnning := True\<rparr>)" by simp
  note t = Start_refused [of 0 "[]" New 1 "[]"]
  note u = Start_refused [of 1 "[]" "New\<lparr>runnning := True\<rparr>"]
  have 1: "Start 0 [] New = (Return_err ErrDurationTooShort, New, [], [])"
    using t [THEN conjunct1] by simp
  have 2: "Start 1 [] (New\<lparr>runnning := True\<rparr>)
       = (Return_err ErrWatcherRunning, New\<lparr>runnning := True\<rparr>, [], [])"
    using u [THEN conjunct2, THEN conjunct1, rule_format, OF b] .
  have 3: "\<not> runnning (fst (snd (Start 0 [] New)))
     \<and> Start 1 [] (fst (snd (Start 0 [] New)))
       = poll_loop [] (New\<lparr>runnning := True, wg := wg New - 1\<rparr>)"
    using t [THEN conjunct2, THEN conjunct2, rule_format, OF a] .
  from 1 2 3 show ?thesis by (simp add: New_def)
qed

subsection \<open>\<^verbatim>\<open>Remove\<close> of a tracked directory\<close>

text \<open>
  Claim C9. For a tracked directory \<open>name\<close> (the resolved path), the method
  \<^verbatim>\<open>Remove\<close> succeeds and deletes from \<^verbatim>\<open>w.files\<close> exactly \<open>name\<close> and the
  paths whose \<^verbatim>\<open>filepath.Dir\<close> is \<open>name\<close>; every other path, a nested descendant
  included, keeps its entry.
\<close>

theorem Remove_path_directory:
  assumes a: "Abs os name0 = Inr name"
    and t: "map_of (files w) name = Some info" and d: "IsDir info"
  shows "fst (Remove_path os name0 w) = None
    \<and> (\<forall>path. map_of (files (snd (Remove_path os name0 w))) path
          = (if path = name \<or> Dir path = name then None else map_of (files w) path))"
proof -
  have r: "Remove_path os name0 w =
     (None, w\<lparr>names := AList.delete name (names w),
              files := filter (\<lambda>x. Dir (fst x) \<noteq> name) (AList.delete name (files w))\<rparr>)"
    using a t d by (simp add: Remove_path_def Let_def filter_case_prod_fst)
  show ?thesis
    by (simp add: r map_of_filter_key [of "\<lambda>p. Dir p \<noteq> name"] delete_conv)
qed

theorem Remove_path_directory_witness:
  "Abs os_a ''/a'' = Inr ''/a'' \<and> map_of (files w_tree) ''/a'' = Some (dir_meta ''a'')
   \<and> IsDir (dir_meta ''a'')
   \<and> map_of (files (snd (Remove_path os_a ''/a'' w_tree))) ''/a/d/e'' = Some (file_meta ''e'')
   \<and> Remove_path os_a ''/a'' w_tree
        = (None, w_tree\<lparr>names := [], files := [(''/a/d/e'', file_meta ''e'')]\<rparr>)"
proof -
  have a: "Abs os_a ''/a'' = Inr ''/a''"
    by (simp add: os_a_def unix_os_def unix_Abs_def Clean_def cleanStep_def)
  have t: "map_of (files w_tree) ''/a'' = Some (dir_meta ''a'')" by (simp add: w_tree_def)
  have d: "IsDir (dir_meta ''a'')" by (simp add: dir_meta_def)
  have "Dir ''/a/d/e'' \<noteq> ''/a''" by (simp add: Dir_def Clean_def cleanStep_def)
  with Remove_path_directory [OF a t d, THEN conjunct2, rule_format, of "''/a/d/e''"]
  have k: "map_of (files (snd (Remove_path os_a ''/a'' w_tree))) ''/a/d/e'' = Some (file_meta ''e'')"
    by (simp add: w_tree_def)
  have e: "Remove_path os_a ''/a'' w_tree
        = (None, w_tree\<lparr>names := [], files := [(''/a/d/e'', file_meta ''e'')]\<rparr>)"
    by (simp add: Remove_path_def a w_tree_def New_def Let_def dir_meta_def Dir_def Clean_def cleanStep_def)
  from a t d k e show ?thesis by (intro conjI)
qed

subsection \<open>\<^verbatim>\<open>Ignore\<close> is not atomic\<close>

text \<open>
  Claim C10. When \<^verbatim>\<open>Ignore\<close> has handled the paths before \<open>bad\<close> and then fails
  on \<open>bad\<close> (in \<^verbatim>\<open>filepath.Abs\<close>, or in \<^verbatim>\<open>RemoveRecursive\<close>, which fails only
  in its own \<^verbatim>\<open>filepath.Abs\<close>), it returns that error and leaves the watcher as the
  earlier paths left it: each of them is in \<^verbatim>\<open>w.ignored\<close> and is neither a watched
  name nor a key of \<^verbatim>\<open>w.files\<close>, and nothing else was added to \<^verbatim>\<open>w.ignored\<close>,
  neither \<open>bad\<close> nor a later path.
\<close>

theorem Ignore_stops_at_first_error:
  assumes ok: "Ignore os paths w = (None, w1)"
    and bad: "Abs os bad = Inl err \<or> (\<exists>q. Abs os bad = Inr q \<and> Abs os q = Inl err)"
  shows "Ignore os (paths @ bad # later) w = (Some err, w1)
    \<and> ignored w1 = ignored w \<union> {q. \<exists>p \<in> set paths. Abs os p = Inr q}
    \<and> (\<forall>p \<in> set paths. \<forall>q r. Abs os p = Inr q \<and> Abs os q = Inr r \<longrightarrow>
           r \<notin> fst ` set (names w1) \<and> r \<notin> fst ` set (files w1))"
proof -
  have "Ignore os (bad # later) w1 = (Some err, w1)"
    using bad by (auto simp: RemoveRecursive_fails)
  then have "Ignore os (paths @ bad # later) w = (Some err, w1)"
    using Ignore_append [OF ok, of "bad # later"] by simp
  moreover note s = Ignore_success [OF ok]
  ultimately show ?thesis
    using s [THEN conjunct1] s [THEN conjunct2, THEN conjunct2, THEN conjunct2]
    by (intro conjI)
qed

theorem Ignore_stops_at_first_error_witness:
  "Ignore os_a [''/a/b''] w_tree = (None, w_b)
   \<and> Abs os_a ''rel'' = Inl (ErrOS ''getwd'')
   \<and> Ignore os_a ([''/a/b''] @ ''rel'' # [''/a/d'']) w_tree = (Some (ErrOS ''getwd''), w_b)
   \<and> ignored w_b = {''/a/b''}
   \<and> ''/a/b'' \<notin> fst ` set (files w_b)
   \<and> map_of (files w_b) ''/a/d'' = Some (dir_meta ''d'')"
proof -
  have a: "Abs os_a ''/a/b'' = Inr ''/a/b''" by (simp add: os_eval)
  have ok: "Ignore os_a [''/a/b''] w_tree = (None, w_b)"
    by (simp add: a RemoveRecursive_def Let_def w_tree_def w_b_def New_def file_meta_def)
  have bad: "Abs os_a ''rel'' = Inl (ErrOS ''getwd'')
      \<or> (\<exists>q. Abs os_a ''rel'' = Inr q \<and> Abs os_a q = Inl (ErrOS ''getwd''))"
    by (simp add: os_eval)
  note t = Ignore_stops_at_first_error [OF ok bad, of "[''/a/d'']"]
  have 1: "Ignore os_a ([''/a/b''] @ ''rel'' # [''/a/d'']) w_tree = (Some (ErrOS ''getwd''), w_b)"
    by (rule t [THEN conjunct1])
  have 2: "''/a/b'' \<notin> fst ` set (files w_b)"
    using t [THEN conjunct2, THEN conjunct2, rule_format, of "''/a/b''" "''/a/b''" "''/a/b''"] a
    by simp
  have 3: "Abs os_a ''rel'' = Inl (ErrOS ''getwd'')" by (simp add: os_eval)
  have 4: "ignored w_b = {''/a/b''}" by (simp add: w_b_def)
  have 5: "map_of (files w_b) ''/a/d'' = Some (dir_meta ''d'')" by (simp add: w_b_def)
  from ok 3 1 4 2 5 show ?thesis by (intro conjI)
qed

subsection \<open>What the listers return\<close>

lemma walkFn_keys:
  "fst ` set (fst (walkFn w path info err fileList)) \<subseteq> fst ` set fileList \<union> (- ignored w)"
  by (auto simp: walkFn_def dom_update split: option.splits)

lemma walkFn_ignored:
  "path \<in> ignored w \<Longrightarrow> fst (walkFn w path info err fileList) = fileList"
  by (simp add: walkFn_def split: option.splits)

lemma walk_keys:
  "fst ` set (fst (walk w path node fileList)) \<subseteq> fst ` set fileList \<union> (- ignored w)"
  "fst ` set (fst (walk_entries w path kids fileList)) \<subseteq> fst ` set fileList \<union> (- ignored w)"
proof (induction w path node fileList and w path kids fileList rule: walk_walk_entries.induct)
  case (1 w path info derr kids fileList)
  show ?case
  proof (cases "IsDir info")
    case False
    then show ?thesis using walkFn_keys [of w path info None fileList] by simp
  next
    case True
    obtain fileList1 err1 where f: "walkFn w path info derr fileList = (fileList1, err1)"
      by (cases "walkFn w path info derr fileList") auto
    have k1: "fst ` set fileList1 \<subseteq> fst ` set fileList \<union> (- ignored w)"
      using walkFn_keys [of w path info derr fileList] by (simp add: f)
    show ?thesis
    proof (cases "derr \<noteq> None \<or> err1 \<noteq> None")
      case stop: True
      have "walk w path (FsNode info derr kids) fileList = (fileList1, err1)"
        using True stop f by simp
      then show ?thesis using k1 by simp
    next
      case go: False
      have "fst ` set (fst (walk_entries w path kids fileList1)) \<subseteq> fst ` set fileList1 \<union> (- ignored w)"
        using 1 [OF _ f [symmetric]] True go by simp
      moreover have "walk w path (FsNode info derr kids) fileList = walk_entries w path kids fileList1"
        using True go f by simp
      ultimately show ?thesis using k1 by auto
    qed
  qed
next
  case (2 w path fileList)
  then show ?case by simp
next
  case (3 w path kid rest fileList)
  obtain fileList1 err where f: "walk w (Join path (Name (node_info kid))) kid fileList = (fileList1, err)"
    by (cases "walk w (Join path (Name (node_info kid))) kid fileList") auto
  have k1: "fst ` set fileList1 \<subseteq> fst ` set fileList \<union> (- ignored w)"
    using 3(1) by (simp add: f)
  show ?case
  proof (cases err)
    case None
    have "fst ` set (fst (walk_entries w path rest fileList1)) \<subseteq> fst ` set fileList1 \<union> (- ignored w)"
      using 3(2) [OF f [symmetric] None] .
    moreover have "walk_entries w path (kid # rest) fileList = walk_entries w path rest fileList1"
      using f None by simp
    ultimately show ?thesis using k1 by auto
  next
    case (Some e)
    show ?thesis
    proof (cases "\<not> IsDir (node_info kid) \<or> e \<noteq> SkipDir")
      case True
      have "walk_entries w path (kid # rest) fileList = (fileList1, Some e)"
        using f Some True by simp
      then show ?thesis using k1 by simp
    next
      case False
      have "fst ` set (fst (walk_entries w path rest fileList1)) \<subseteq> fst ` set fileList1 \<union> (- ignored w)"
        using 3(3) [OF f [symmetric] Some False] .
      moreover have "walk_entries w path (kid # rest) fileList = walk_entries w path rest fileList1"
        using f Some False by simp
      ultimately show ?thesis using k1 by auto
    qed
  qed
qed

lemma walk_ignored:
  "path \<in> ignored w \<Longrightarrow> fst (walk w path node fileList) = fileList"
proof (cases node)
  case (FsNode info derr kids)
  assume p: "path \<in> ignored w"
  show ?thesis
  proof (cases "IsDir info")
    case False
    then show ?thesis using walkFn_ignored [OF p] by (simp add: FsNode)
  next
    case True
    then have "walkFn w path info derr fileList = (fileList, (case derr of None \<Rightarrow> Some SkipDir | Some e \<Rightarrow> Some e))"
      using p by (simp add: walkFn_def split: option.splits)
    then show ?thesis using True by (simp add: FsNode split: option.splits)
  qed
qed

lemma listRecursive_keys:
  "fst ` set (fst (listRecursive os w name)) \<subseteq> - ignored w"
proof (cases "Stat os name")
  case (Inl err)
  then show ?thesis by (simp add: listRecursive_def)
next
  case (Inr node)
  have "fst (listRecursive os w name) = fst (walk w name node [])"
    by (simp add: listRecursive_def Inr split: prod.splits)
  then show ?thesis using walk_keys(1) [of w name node "[]"] by simp
qed

lemma list_entries_keys:
  "fst ` set (list_entries w name infos fileList) \<subseteq> fst ` set fileList \<union> (- ignored w)"
proof (induction infos arbitrary: fileList)
  case Nil
  then show ?case by simp
next
  case (Cons fInfo infos)
  show ?case
  proof (cases "Join name (Name fInfo) \<in> ignored w \<or> (ignoreHidden w \<and> HasPrefix (Name fInfo) ''.'')")
    case True
    then have eq: "list_entries w name (fInfo # infos) fileList = list_entries w name infos fileList"
      by (simp add: Let_def)
    show ?thesis unfolding eq by (rule Cons.IH)
  next
    case False
    then have eq: "list_entries w name (fInfo # infos) fileList
        = list_entries w name infos (AList.update (Join name (Name fInfo)) fInfo fileList)"
      by (auto simp: Let_def)
    have k: "fst ` set (AList.update (Join name (Name fInfo)) fInfo fileList)
        \<subseteq> fst ` set fileList \<union> (- ignored w)"
      using False by (auto simp: dom_update)
    have ih: "fst ` set (list_entries w name infos (AList.update (Join name (Name fInfo)) fInfo fileList))
        \<subseteq> fst ` set (AList.update (Join name (Name fInfo)) fInfo fileList) \<union> (- ignored w)"
      by (rule Cons.IH)
    show ?thesis unfolding eq using ih k by blast
  qed
qed

lemma list_keys:
  "list os w name = Inr fileList \<Longrightarrow> fst ` set fileList \<subseteq> insert name (- ignored w)"
proof -
  assume l: "list os w name = Inr fileList"
  then obtain node where s: "Stat os name = Inr node"
    by (cases "Stat os name") (simp_all add: list_def)
  show ?thesis
  proof (cases "IsDir (node_info node)")
    case False
    with l s have "fileList = [(name, node_info node)]" by (simp add: list_def Let_def)
    then show ?thesis by simp
  next
    case True
    with l s have "fileList = list_entries w name (map node_info (node_kids node)) [(name, node_info node)]"
      by (simp add: list_def Let_def split: option.splits)
    then show ?thesis
      using list_entries_keys [of w name "map node_info (node_kids node)" "[(name, node_info node)]"]
      by auto
  qed
qed

lemma assign_all_keys: "fst ` set (assign_all lst m) = fst ` set lst \<union> fst ` set m"
proof -
  have "fst ` set (fold (\<lambda>(k, v). AList.update k v) lst m) = fst ` set lst \<union> fst ` set m"
  proof (induction lst arbitrary: m)
    case Nil
    then show ?case by simp
  next
    case (Cons x lst)
    obtain k v where x: "x = (k, v)" by (cases x)
    have "fst ` set (fold (\<lambda>(k, v). AList.update k v) (x # lst) m)
            = fst ` set lst \<union> fst ` set (AList.update k v m)"
      using Cons.IH [of "AList.update k v m"] by (simp add: x)
    also have "\<dots> = fst ` set (x # lst) \<union> fst ` set m"
      unfolding dom_update by (simp add: x)
    finally show ?case .
  qed
  then show ?thesis by (simp add: assign_all_def)
qed

lemma RemoveRecursive_ignored: "ignored (snd (RemoveRecursive os name w)) = ignored w"
  by (simp add: RemoveRecursive_def Let_def split: sum.splits option.splits)

lemma Remove_path_ignored: "ignored (snd (Remove_path os name w)) = ignored w"
  by (simp add: Remove_path_def Let_def split: sum.splits option.splits)

lemma retrieve_names_step:
  assumes "fst x \<in> ignored w \<longrightarrow> snd x"
  obtains w2 fileList2 errs2 where
    "retrieve_names os (x # ns) (w, fileList, errs) = retrieve_names os ns (w2, fileList2, errs2)"
    "ignored w2 = ignored w"
    "fst ` set fileList2 \<subseteq> fst ` set fileList \<union> (- ignored w)"
proof -
  obtain name recursive where x: "x = (name, recursive)" by (cases x)
  show ?thesis
  proof (cases recursive)
    case True
    obtain lst e where l: "listRecursive os w name = (lst, e)" by (cases "listRecursive os w name")
    have k: "fst ` set (assign_all lst fileList) \<subseteq> fst ` set fileList \<union> (- ignored w)"
      using listRecursive_keys [of os w name] by (auto simp: l assign_all_keys)
    show ?thesis
    proof (cases e)
      case None
      have "retrieve_names os (x # ns) (w, fileList, errs)
              = retrieve_names os ns (w, assign_all lst fileList, errs)"
        by (simp add: x True l None)
      then show ?thesis by (rule that [OF _ refl k])
    next
      case (Some err)
      show ?thesis
      proof (cases "IsNotExist err")
        case gone: True
        have "retrieve_names os (x # ns) (w, fileList, errs)
              = retrieve_names os ns (snd (RemoveRecursive os name w), assign_all lst fileList,
                  errs @ [ErrWatchedFileDeleted])"
          by (simp add: x True l Some gone)
        then show ?thesis by (rule that [OF _ RemoveRecursive_ignored k])
      next
        case False
        have "retrieve_names os (x # ns) (w, fileList, errs)
              = retrieve_names os ns (w, assign_all lst fileList, errs @ [err])"
          by (simp add: x True l Some False)
        then show ?thesis by (rule that [OF _ refl k])
      qed
    qed
  next
    case False
    with assms x have n: "name \<notin> ignored w" by simp
    show ?thesis
    proof (cases "list os w name")
      case (Inr lst)
      have k: "fst ` set (assign_all lst fileList) \<subseteq> fst ` set fileList \<union> (- ignored w)"
        using list_keys [OF Inr] n by (auto simp: assign_all_keys)
      have "retrieve_names os (x # ns) (w, fileList, errs)
              = retrieve_names os ns (w, assign_all lst fileList, errs)"
        by (simp add: x False Inr)
      then show ?thesis by (rule that [OF _ refl k])
    next
      case (Inl err)
      show ?thesis
      proof (cases "IsNotExist err")
        case True
        have "retrieve_names os (x # ns) (w, fileList, errs)
              = retrieve_names os ns (snd (Remove_path os name w), fileList,
                  errs @ [ErrWatchedFileDeleted])"
          by (simp add: x False Inl True)
        then show ?thesis by (rule that [OF _ Remove_path_ignored]) blast
      next
        case no: False
        have "retrieve_names os (x # ns) (w, fileList, errs)
              = retrieve_names os ns (w, fileList, errs @ [err])"
          by (simp add: x False Inl no)
        then show ?thesis by (rule that [OF _ refl]) blast
      qed
    qed
  qed
qed

lemma retrieve_names_keys:
  "\<forall>x \<in> set ns. fst x \<in> ignored w \<longrightarrow> snd x \<Longrightarrow>
   fst ` set (fst (snd (retrieve_names os ns (w, fileList, errs))))
     \<subseteq> fst ` set fileList \<union> (- ignored w)"
proof (induction ns arbitrary: w fileList errs)
  case Nil
  then show ?case by simp
next
  case (Cons x ns)
  from Cons.prems have hx: "fst x \<in> ignored w \<longrightarrow> snd x" by simp
  obtain w2 fileList2 errs2 where
    s: "retrieve_names os (x # ns) (w, fileList, errs) = retrieve_names os ns (w2, fileList2, errs2)"
    and i: "ignored w2 = ignored w"
    and k: "fst ` set fileList2 \<subseteq> fst ` set fileList \<union> (- ignored w)"
    using retrieve_names_step [OF hx, of os ns fileList errs] by blast
  have "\<forall>x \<in> set ns. fst x \<in> ignored w2 \<longrightarrow> snd x" using Cons.prems i by simp
  from Cons.IH [OF this, of fileList2 errs2]
  have "fst ` set (fst (snd (retrieve_names os ns (w2, fileList2, errs2))))
     \<subseteq> fst ` set fileList2 \<union> (- ignored w)" by (simp add: i)
  then show ?case using k unfolding s by blast
qed

lemma retrieveFileList_keys:
  assumes "\<forall>x \<in> set (names w). fst x \<in> ignored w \<longrightarrow> snd x"
    and "set (order (names w)) \<subseteq> set (names w)"
  shows "fst ` set (fst (snd (retrieveFileList os order w))) \<inter> ignored w = {}"
proof -
  have "\<forall>x \<in> set (order (names w)). fst x \<in> ignored w \<longrightarrow> snd x" using assms by blast
  from retrieve_names_keys [OF this, of os "[]" "[]"] show ?thesis
    by (auto simp: retrieveFileList_def)
qed

lemma RemoveRecursive_cases:
  assumes a: "Abs os name0 = Inr name"
  shows "RemoveRecursive os name0 w =
    (None, w\<lparr>names := AList.delete name (names w),
             files := (case map_of (files w) name of
                         None \<Rightarrow> files w
                       | Some info \<Rightarrow>
                           if IsDir info then filter (\<lambda>x. \<not> HasPrefix (fst x) name) (files w)
                           else AList.delete name (files w))\<rparr>)"
  using a by (simp add: RemoveRecursive_def Let_def filter_case_prod_fst split: option.splits)

lemma Ignore_one:
  assumes a: "Abs os path0 = Inr path" and i: "Abs os path = Inr path"
  shows "Ignore os [path0] w =
    (None, w\<lparr>names := AList.delete path (names w),
             files := (case map_of (files w) path of
                         None \<Rightarrow> files w
                       | Some info \<Rightarrow>
                           if IsDir info then filter (\<lambda>x. \<not> HasPrefix (fst x) path) (files w)
                           else AList.delete path (files w)),
             ignored := insert path (ignored w)\<rparr>)"
  by (simp add: a RemoveRecursive_cases [OF i])

lemmas fs_eval = os_eval tree_a_def dir_meta_def file_meta_def list_def listRecursive_def
  walkFn_def HasPrefix_def assign_all_def Let_def New_def

subsection \<open>What the methods keep\<close>

text \<open>The maps of the watcher keep distinct keys, as Go maps do.\<close>


lemma distinct_assign_all:
  "distinct (map fst m) \<Longrightarrow> distinct (map fst (assign_all lst m))"
proof -
  have "distinct (map fst m) \<Longrightarrow> distinct (map fst (fold (\<lambda>(k, v). AList.update k v) lst m))"
  proof (induction lst arbitrary: m)
    case Nil
    then show ?case by simp
  next
    case (Cons x lst)
    obtain k v where x: "x = (k, v)" by (cases x)
    have "distinct (map fst (AList.update k v m))" using Cons.prems by (rule distinct_update)
    from Cons.IH [OF this] show ?case by (simp add: x)
  qed
  then show "distinct (map fst m) \<Longrightarrow> distinct (map fst (assign_all lst m))"
    by (simp add: assign_all_def)
qed

lemma set_update_subset: "set (AList.update k v al) \<subseteq> insert (k, v) (set al)"
  by (induction al) auto

lemma set_delete_subset: "set (AList.delete k al) \<subseteq> set al"
  by (auto simp: AList.delete_eq)


lemma retrieve_names_distinct:
  "distinct (map fst fileList) \<Longrightarrow>
   distinct (map fst (fst (snd (retrieve_names os ns (w, fileList, errs)))))"
proof (induction ns arbitrary: w fileList errs)
  case Nil
  then show ?case by simp
next
  case (Cons x ns)
  obtain name recursive where x: "x = (name, recursive)" by (cases x)
  note d = distinct_assign_all [OF Cons.prems]
  show ?case
    using Cons.IH [OF Cons.prems] Cons.IH [OF d]
    by (simp add: x split: prod.splits option.splits sum.splits)
qed

lemma retrieveFileList_distinct:
  "distinct (map fst (fst (snd (retrieveFileList os order w))))"
  using retrieve_names_distinct [of "[]" os "order (names w)" w "[]"]
  by (simp add: retrieveFileList_def)

lemma Add_distinct:
  "distinct (map fst (files w)) \<Longrightarrow> distinct (map fst (files (snd (Add os name0 w))))"
  by (simp add: Add_def distinct_assign_all split: sum.splits)

lemma AddRecursive_distinct:
  "distinct (map fst (files w)) \<Longrightarrow> distinct (map fst (files (snd (AddRecursive os name0 w))))"
  by (simp add: AddRecursive_def distinct_assign_all split: sum.splits prod.splits option.splits)

lemma Remove_path_distinct:
  "distinct (map fst (files w)) \<Longrightarrow> distinct (map fst (files (snd (Remove_path os name0 w))))"
  by (simp add: Remove_path_def Let_def distinct_delete distinct_map_filter
      split: sum.splits option.splits)

lemma RemoveRecursive_distinct:
  "distinct (map fst (files w)) \<Longrightarrow> distinct (map fst (files (snd (RemoveRecursive os name0 w))))"
  by (simp add: RemoveRecursive_def Let_def distinct_delete distinct_map_filter
      split: sum.splits option.splits)

text \<open>
  No ignored path is watched non-recursively: true of \<^verbatim>\<open>New\<close>, and kept by
  \<^verbatim>\<open>Add\<close>, \<^verbatim>\<open>AddRecursive\<close> and the two removals.
\<close>

lemma New_plain_roots: "\<forall>x \<in> set (names New). fst x \<in> ignored New \<longrightarrow> snd x"
  by (simp add: New_def)

lemma Add_plain_roots:
  assumes inv: "\<forall>x \<in> set (names w). fst x \<in> ignored w \<longrightarrow> snd x"
  shows "\<forall>x \<in> set (names (snd (Add os name0 w))).
           fst x \<in> ignored (snd (Add os name0 w)) \<longrightarrow> snd x"
proof (cases "Abs os name0")
  case (Inl err)
  then show ?thesis using inv by (simp add: Add_def)
next
  case (Inr name)
  show ?thesis
  proof (cases "name \<in> ignored w \<or> (ignoreHidden w \<and> HasPrefix name ''.'')")
    case True
    then have "Add os name0 w = (None, w)" by (auto simp: Add_def Inr)
    then show ?thesis using inv by simp
  next
    case False
    show ?thesis
    proof (cases "list os w name")
      case (Inl err)
      then have "Add os name0 w = (Some err, w)" using False by (auto simp: Add_def Inr)
      then show ?thesis using inv by simp
    next
      case lst: (Inr fileList)
      then have e: "Add os name0 w = (None, w\<lparr>files := assign_all fileList (files w),
                             names := AList.update name False (names w)\<rparr>)"
        using False by (auto simp: Add_def Inr)
      show ?thesis
      proof
        fix x assume "x \<in> set (names (snd (Add os name0 w)))"
        then have "x \<in> insert (name, False) (set (names w))"
          using set_update_subset [of name False "names w"] by (auto simp: e)
        then show "fst x \<in> ignored (snd (Add os name0 w)) \<longrightarrow> snd x"
          using inv False by (auto simp: e)
      qed
    qed
  qed
qed

lemma AddRecursive_plain_roots:
  assumes inv: "\<forall>x \<in> set (names w). fst x \<in> ignored w \<longrightarrow> snd x"
  shows "\<forall>x \<in> set (names (snd (AddRecursive os name0 w))).
           fst x \<in> ignored (snd (AddRecursive os name0 w)) \<longrightarrow> snd x"
proof (cases "Abs os name0")
  case (Inl err)
  then show ?thesis using inv by (simp add: AddRecursive_def)
next
  case (Inr name)
  obtain fileList e where l: "listRecursive os w name = (fileList, e)"
    by (cases "listRecursive os w name")
  show ?thesis
  proof (cases e)
    case (Some err)
    then have "AddRecursive os name0 w = (Some err, w)" by (simp add: AddRecursive_def Inr l)
    then show ?thesis using inv by simp
  next
    case None
    then have e: "AddRecursive os name0 w = (None, w\<lparr>files := assign_all fileList (files w),
                        names := AList.update name True (names w)\<rparr>)"
      by (simp add: AddRecursive_def Inr l)
    show ?thesis
    proof
      fix x assume "x \<in> set (names (snd (AddRecursive os name0 w)))"
      then have "x \<in> insert (name, True) (set (names w))"
        using set_update_subset [of name True "names w"] by (auto simp: e)
      then show "fst x \<in> ignored (snd (AddRecursive os name0 w)) \<longrightarrow> snd x"
        using inv by (auto simp: e)
    qed
  qed
qed

lemma Remove_path_names: "set (names (snd (Remove_path os name0 w))) \<subseteq> set (names w)"
  using set_delete_subset [of _ "names w"]
  by (auto simp: Remove_path_def Let_def split: sum.splits option.splits)

lemma RemoveRecursive_names: "set (names (snd (RemoveRecursive os name0 w))) \<subseteq> set (names w)"
  using set_delete_subset [of _ "names w"]
  by (auto simp: RemoveRecursive_def Let_def split: sum.splits option.splits)

lemma Remove_path_plain_roots:
  assumes inv: "\<forall>x \<in> set (names w). fst x \<in> ignored w \<longrightarrow> snd x"
  shows "\<forall>x \<in> set (names (snd (Remove_path os name0 w))).
           fst x \<in> ignored (snd (Remove_path os name0 w)) \<longrightarrow> snd x"
  using inv Remove_path_names [of os name0 w] by (auto simp: Remove_path_ignored)

lemma RemoveRecursive_plain_roots:
  assumes inv: "\<forall>x \<in> set (names w). fst x \<in> ignored w \<longrightarrow> snd x"
  shows "\<forall>x \<in> set (names (snd (RemoveRecursive os name0 w))).
           fst x \<in> ignored (snd (RemoveRecursive os name0 w)) \<longrightarrow> snd x"
  using inv RemoveRecursive_names [of os name0 w] by (auto simp: RemoveRecursive_ignored)

subsection \<open>\<^verbatim>\<open>Ignore\<close> and later listings\<close>

text \<open>
  Three runs in which entries with the ignored path as a prefix stay. A watcher that
  watches \<^verbatim>\<open>/a/d\<close> recursively and the file \<^verbatim>\<open>/a/d/e\<close> by itself is told to
  ignore \<^verbatim>\<open>/a/d\<close>: the name \<^verbatim>\<open>/a/d/e\<close> stays in \<^verbatim>\<open>w.names\<close>, and the next
  cycle lists it and puts it back into \<^verbatim>\<open>w.files\<close>. A watcher that watches
  \<^verbatim>\<open>/a/d\<close> is told to ignore \<^verbatim>\<open>/a\<close>, which it does not track: nothing is
  removed. A watcher that tracks the files \<^verbatim>\<open>/a/b\<close> and \<^verbatim>\<open>/a/bc\<close> is told to
  ignore \<^verbatim>\<open>/a/b\<close>: \<^verbatim>\<open>/a/bc\<close> stays. \<^verbatim>\<open>RemoveRecursive\<close> deletes one name
  from \<^verbatim>\<open>w.names\<close>, returns early for an untracked path and deletes by prefix for a
  tracked directory only, and the listers compare whole paths with \<^verbatim>\<open>w.ignored\<close>.
\<close>

theorem Ignore_keeps_prefixed_entries:
  "snd (Add os_a ''/a/d/e'' (snd (AddRecursive os_a ''/a/d'' New))) = w_nested
   \<and> Ignore os_a [''/a/d''] w_nested = (None, w_nested_ignored)
   \<and> HasPrefix ''/a/d/e'' ''/a/d''
   \<and> map_of (names w_nested_ignored) ''/a/d/e'' = Some False
   \<and> poll_loop one_cycle w_nested_ignored
       = (Still_running, w_nested_ignored\<lparr>files := [(''/a/d/e'', file_meta ''e'')]\<rparr>, [[]], [])
   \<and> snd (Add os_a ''/a/d'' New) = w_plain
   \<and> Ignore os_a [''/a''] w_plain = (None, w_plain\<lparr>ignored := {''/a''}\<rparr>)
   \<and> HasPrefix ''/a/d'' ''/a''
   \<and> snd (AddRecursive os_a ''/a'' New) = w_all
   \<and> map_of (files (snd (Ignore os_a [''/a/b''] w_all))) ''/a/bc'' = Some (file_meta ''bc'')
   \<and> HasPrefix ''/a/bc'' ''/a/b''"
proof -
  have 1: "snd (Add os_a ''/a/d/e'' (snd (AddRecursive os_a ''/a/d'' New))) = w_nested"
    by (simp add: Add_def AddRecursive_def fs_eval w_nested_def)
  have 2: "Ignore os_a [''/a/d''] w_nested = (None, w_nested_ignored)"
    by (simp add: RemoveRecursive_def fs_eval w_nested_def w_nested_ignored_def)
  have 3: "HasPrefix ''/a/d/e'' ''/a/d''" by (simp add: HasPrefix_def)
  have 4: "map_of (names w_nested_ignored) ''/a/d/e'' = Some False"
    by (simp add: w_nested_ignored_def)
  have 5: "poll_loop one_cycle w_nested_ignored
       = (Still_running, w_nested_ignored\<lparr>files := [(''/a/d/e'', file_meta ''e'')]\<rparr>, [[]], [])"
    by (simp add: one_cycle_def retrieveFileList_def fs_eval w_nested_ignored_def)
  have 6: "snd (Add os_a ''/a/d'' New) = w_plain"
    by (simp add: Add_def fs_eval w_plain_def)
  have 7: "Ignore os_a [''/a''] w_plain = (None, w_plain\<lparr>ignored := {''/a''}\<rparr>)"
    by (simp add: RemoveRecursive_def fs_eval w_plain_def)
  have 8: "HasPrefix ''/a/d'' ''/a''" by (simp add: HasPrefix_def)
  have 9: "snd (AddRecursive os_a ''/a'' New) = w_all"
    by (simp add: AddRecursive_def fs_eval w_all_def)
  have 10: "map_of (files (snd (Ignore os_a [''/a/b''] w_all))) ''/a/bc'' = Some (file_meta ''bc'')"
    by (simp add: RemoveRecursive_def fs_eval w_all_def)
  have 11: "HasPrefix ''/a/bc'' ''/a/b''" by (simp add: HasPrefix_def)
  from 1 2 3 4 5 6 7 8 9 10 11 show ?thesis by (intro conjI)
qed

text \<open>
  Claim C7, as the code has it. Let \<open>path\<close> be the resolved path (its own
  \<^verbatim>\<open>filepath.Abs\<close>), and let no ignored path be watched non-recursively (true of a new
  watcher and kept by \<^verbatim>\<open>Ignore\<close>). Then \<^verbatim>\<open>Ignore\<close> succeeds and: \<open>path\<close>
  is in \<^verbatim>\<open>w.ignored\<close>; \<^verbatim>\<open>w.names\<close> loses the name \<open>path\<close> and no other;
  \<^verbatim>\<open>w.files\<close> loses every entry whose path has \<open>path\<close> as a string prefix when
  \<open>path\<close> was tracked as a directory, the entry of \<open>path\<close> alone when it was
  tracked as a file, and nothing when it was not tracked; in each case \<open>path\<close> is
  neither a watched name nor a key of \<^verbatim>\<open>w.files\<close> afterwards. No later listing pass
  over the watched names returns a path of \<^verbatim>\<open>w.ignored\<close>, for any file system, and a
  recursive walk that comes to \<open>path\<close> adds nothing for it or below it.
\<close>

theorem Ignore_purges_and_listing_skips:
  assumes a: "Abs os path0 = Inr path" and i: "Abs os path = Inr path"
    and inv: "\<forall>x \<in> set (names w). fst x \<in> ignored w \<longrightarrow> snd x"
  defines "w' \<equiv> snd (Ignore os [path0] w)"
  shows "fst (Ignore os [path0] w) = None
    \<and> ignored w' = insert path (ignored w)
    \<and> names w' = AList.delete path (names w)
    \<and> path \<notin> fst ` set (names w') \<and> path \<notin> fst ` set (files w')
    \<and> (map_of (files w) path = None \<longrightarrow> files w' = files w)
    \<and> (\<forall>info. map_of (files w) path = Some info \<and> \<not> IsDir info \<longrightarrow>
          files w' = AList.delete path (files w))
    \<and> (\<forall>info. map_of (files w) path = Some info \<and> IsDir info \<longrightarrow>
          files w' = filter (\<lambda>x. \<not> HasPrefix (fst x) path) (files w))
    \<and> (\<forall>x \<in> set (names w'). fst x \<in> ignored w' \<longrightarrow> snd x)
    \<and> (\<forall>os' order. set (order (names w')) \<subseteq> set (names w') \<longrightarrow>
          fst ` set (fst (snd (retrieveFileList os' order w'))) \<inter> ignored w' = {})
    \<and> (\<forall>node fileList. fst (walk w' path node fileList) = fileList)"
proof -
  note e = Ignore_one [OF a i, of w]
  have 1: "fst (Ignore os [path0] w) = None" unfolding e by simp
  have 2: "ignored w' = insert path (ignored w)" unfolding w'_def e by simp
  have 3: "names w' = AList.delete path (names w)" unfolding w'_def e by simp
  have f: "files w' = (case map_of (files w) path of
                         None \<Rightarrow> files w
                       | Some info \<Rightarrow>
                           if IsDir info then filter (\<lambda>x. \<not> HasPrefix (fst x) path) (files w)
                           else AList.delete path (files w))"
    unfolding w'_def e by simp
  have 4: "path \<notin> fst ` set (names w')" by (simp add: 3 keys_delete)
  have 5: "path \<notin> fst ` set (files w')"
  proof (cases "map_of (files w) path")
    case None
    then have "files w' = files w" by (simp add: f)
    with None show ?thesis by (simp add: map_of_None_keys)
  next
    case (Some info)
    then have "files w' = (if IsDir info then filter (\<lambda>x. \<not> HasPrefix (fst x) path) (files w)
                           else AList.delete path (files w))" by (simp add: f)
    then show ?thesis by (auto simp: keys_delete HasPrefix_def)
  qed
  have 6: "map_of (files w) path = None \<longrightarrow> files w' = files w" by (simp add: f)
  have 7: "\<forall>info. map_of (files w) path = Some info \<and> \<not> IsDir info \<longrightarrow>
          files w' = AList.delete path (files w)" by (simp add: f)
  have 8: "\<forall>info. map_of (files w) path = Some info \<and> IsDir info \<longrightarrow>
          files w' = filter (\<lambda>x. \<not> HasPrefix (fst x) path) (files w)" by (simp add: f)
  have 9: "\<forall>x \<in> set (names w'). fst x \<in> ignored w' \<longrightarrow> snd x"
  proof
    fix x assume "x \<in> set (names w')"
    then have "x \<in> set (names w)" and "fst x \<noteq> path"
      by (auto simp: 3 AList.delete_eq)
    then show "fst x \<in> ignored w' \<longrightarrow> snd x" using inv by (simp add: 2)
  qed
  have 10: "\<forall>os' order. set (order (names w')) \<subseteq> set (names w') \<longrightarrow>
          fst ` set (fst (snd (retrieveFileList os' order w'))) \<inter> ignored w' = {}"
    using retrieveFileList_keys [OF 9] by blast
  have "path \<in> ignored w'" by (simp add: 2)
  then have 11: "\<forall>node fileList. fst (walk w' path node fileList) = fileList"
    by (simp add: walk_ignored)
  from 1 2 3 4 5 6 7 8 9 10 11 show ?thesis by (intro conjI)
qed

theorem Ignore_purges_and_listing_skips_witness:
  "Abs os_a ''/a/d'' = Inr ''/a/d''
   \<and> Ignore os_a [''/a/d''] w_tree = (None, w_d)
   \<and> map_of (files w_tree) ''/a/d'' = Some (dir_meta ''d'') \<and> IsDir (dir_meta ''d'')
   \<and> files (snd (Ignore os_a [''/a/d''] w_tree))
        = filter (\<lambda>x. \<not> HasPrefix (fst x) ''/a/d'') (files w_tree)
   \<and> fst ` set (fst (snd (retrieveFileList os_a id (snd (Ignore os_a [''/a/d''] w_tree)))))
        \<inter> ignored (snd (Ignore os_a [''/a/d''] w_tree)) = {}
   \<and> retrieveFileList os_a id w_d
        = (w_d, [(''/a'', dir_meta ''a''), (''/a/.h'', file_meta ''.h''),
                 (''/a/b'', file_meta ''b''), (''/a/bc'', file_meta ''bc'')], [])"
proof -
  have a: "Abs os_a ''/a/d'' = Inr ''/a/d''" by (simp add: os_eval)
  have inv: "\<forall>x \<in> set (names w_tree). fst x \<in> ignored w_tree \<longrightarrow> snd x"
    by (simp add: w_tree_def New_def)
  have d: "map_of (files w_tree) ''/a/d'' = Some (dir_meta ''d'') \<and> IsDir (dir_meta ''d'')"
    by (simp add: w_tree_def dir_meta_def)
  note t = Ignore_purges_and_listing_skips [OF a a inv]
  have 1: "files (snd (Ignore os_a [''/a/d''] w_tree))
        = filter (\<lambda>x. \<not> HasPrefix (fst x) ''/a/d'') (files w_tree)"
    by (rule t [THEN conjunct2, THEN conjunct2, THEN conjunct2, THEN conjunct2, THEN conjunct2,
        THEN conjunct2, THEN conjunct2, THEN conjunct1, rule_format, OF d])
  have o: "set (id (names (snd (Ignore os_a [''/a/d''] w_tree))))
             \<subseteq> set (names (snd (Ignore os_a [''/a/d''] w_tree)))" by simp
  have 2: "fst ` set (fst (snd (retrieveFileList os_a id (snd (Ignore os_a [''/a/d''] w_tree)))))
        \<inter> ignored (snd (Ignore os_a [''/a/d''] w_tree)) = {}"
    by (rule t [THEN conjunct2, THEN conjunct2, THEN conjunct2, THEN conjunct2, THEN conjunct2,
        THEN conjunct2, THEN conjunct2, THEN conjunct2, THEN conjunct2, THEN conjunct1,
        rule_format, where order = id and os' = os_a, OF o])
  have 3: "Ignore os_a [''/a/d''] w_tree = (None, w_d)"
    by (simp add: RemoveRecursive_def fs_eval w_tree_def w_d_def)
  have 4: "retrieveFileList os_a id w_d
        = (w_d, [(''/a'', dir_meta ''a''), (''/a/.h'', file_meta ''.h''),
                 (''/a/b'', file_meta ''b''), (''/a/bc'', file_meta ''bc'')], [])"
    by (simp add: retrieveFileList_def fs_eval w_tree_def w_d_def)
  from a 3 d 1 2 4 show ?thesis by (intro conjI) simp_all
qed

subsection \<open>Adding an ignored or hidden path\<close>

text \<open>
  \<^verbatim>\<open>Add\<close> returns before it lists an ignored path. \<^verbatim>\<open>AddRecursive\<close> of an
  ignored directory that can be read adds no entry and registers the name.
\<close>

lemma Add_ignored:
  "Abs os name0 = Inr name \<Longrightarrow> name \<in> ignored w \<Longrightarrow> Add os name0 w = (None, w)"
  by (simp add: Add_def)

lemma AddRecursive_ignored_directory:
  assumes a: "Abs os name0 = Inr name" and i: "name \<in> ignored w"
    and s: "Stat os name = Inr node" and d: "IsDir (node_info node)" and r: "node_err node = None"
  shows "AddRecursive os name0 w = (None, w\<lparr>names := AList.update name True (names w)\<rparr>)"
proof -
  obtain info kids where n: "node = FsNode info None kids"
    using r by (cases node) auto
  have "walk w name node [] = ([], Some SkipDir)"
    using i d by (simp add: n walkFn_def)
  then have "listRecursive os w name = ([], None)"
    by (simp add: listRecursive_def s)
  then show ?thesis by (simp add: AddRecursive_def a assign_all_def)
qed

text \<open>
  Claim C8. \<^verbatim>\<open>Add\<close> of the ignored directory \<^verbatim>\<open>/a/d\<close> is a no-op, but
  \<^verbatim>\<open>AddRecursive\<close> of it has no such test: the walk skips the root, and the name is
  still registered in \<^verbatim>\<open>w.names\<close>; for an ignored path that does not exist it
  returns the error of \<^verbatim>\<open>Lstat\<close> where \<^verbatim>\<open>Add\<close> returns \<^verbatim>\<open>nil\<close>. With
  hidden files suppressed, \<^verbatim>\<open>Add\<close> tests the absolute path for the prefix
  \<^verbatim>\<open>.\<close>, which the path \<^verbatim>\<open>/a/.h\<close> does not have: the hidden file is listed and
  registered. \<^verbatim>\<open>AddRecursive\<close> of it adds no entry and registers the name.
\<close>

theorem AddRecursive_registers_ignored_root:
  "AddRecursive os_a ''/a/d'' (New\<lparr>ignored := {''/a/d''}\<rparr>)
     = (None, New\<lparr>names := [(''/a/d'', True)], ignored := {''/a/d''}\<rparr>)
   \<and> Add os_a ''/a/d'' (New\<lparr>ignored := {''/a/d''}\<rparr>) = (None, New\<lparr>ignored := {''/a/d''}\<rparr>)
   \<and> AddRecursive os_a ''/zz'' (New\<lparr>ignored := {''/zz''}\<rparr>)
     = (Some ErrNotExist, New\<lparr>ignored := {''/zz''}\<rparr>)
   \<and> Add os_a ''/a/.h'' (New\<lparr>ignoreHidden := True\<rparr>)
     = (None, New\<lparr>names := [(''/a/.h'', False)], files := [(''/a/.h'', file_meta ''.h'')],
                   ignoreHidden := True\<rparr>)
   \<and> AddRecursive os_a ''/a/.h'' (New\<lparr>ignoreHidden := True\<rparr>)
     = (None, New\<lparr>names := [(''/a/.h'', True)], ignoreHidden := True\<rparr>)"
  by (simp add: Add_def AddRecursive_def fs_eval)

end
